theory Spec2Isabelle
  imports Complex_Main "HOL-Library.Product_Lexorder" "HOL-Library.AList"
begin

section \<open>Characters and strings as Python sees them\<close>

text \<open>
  A Python \<open>str\<close> is a sequence of code points. The model uses \<open>string\<close> and reads a
  \<open>char\<close> as the code point of the same number (0 to 255), so the character classes
  below are the ones Python's \<open>str.isspace\<close>, \<open>str.isupper\<close> and the \<open>re\<close> module's
  \<open>\s\<close> and \<open>\d\<close> have on that range. Python integers are unbounded and are
  modelled by \<open>int\<close>. An exception that the source does not catch is a value: a
  function that can raise returns \<open>Inl\<close> of the error.
\<close>

definition is_space :: "char \<Rightarrow> bool" where
  "is_space c = (c \<in> set [CHR 0x09, CHR 0x0A, CHR 0x0B, CHR 0x0C, CHR 0x0D,
                           CHR 0x1C, CHR 0x1D, CHR 0x1E, CHR 0x1F, CHR 0x20,
                           CHR 0x85, CHR 0xA0])"

definition is_digit :: "char \<Rightarrow> bool" where
  "is_digit c = (c \<in> set ''0123456789'')"

definition isupper :: "char \<Rightarrow> bool" where
  "isupper c = (let n = (of_char c :: nat)
                in (65 \<le> n \<and> n \<le> 90) \<or> (192 \<le> n \<and> n \<le> 214) \<or> (216 \<le> n \<and> n \<le> 222))"

text \<open>\<open>sep.join(xs)\<close>\<close>

fun join :: "string \<Rightarrow> string list \<Rightarrow> string" where
  "join sep [] = []"
| "join sep [x] = x"
| "join sep (x # y # ys) = x @ sep @ join sep (y # ys)"


section \<open>ColumnSegmenter: \<open>extract_text_in_columns\<close>\<close>

text \<open>
  A word of \<open>page.extract_words()\<close> is a dictionary with the keys \<open>text\<close>, \<open>x0\<close> and
  \<open>top\<close>. The coordinates are floats. A float is a rational number and floats are compared
  exactly, so the model takes the coordinates as rationals and compares them as such. The
  results of float arithmetic are rounded: the three operations the source applies to
  coordinates are parameters of the model, and every theorem that is stated for all
  \<open>ops\<close> holds for the operations of the floats (a coordinate that is not a number is not
  modelled).
\<close>

record word =
  wtext :: string
  x0 :: rat
  wtop :: rat

record float_ops =
  fadd :: "rat \<Rightarrow> rat \<Rightarrow> rat"
  fsub :: "rat \<Rightarrow> rat \<Rightarrow> rat"
  fdiv :: "rat \<Rightarrow> rat \<Rightarrow> rat"

text \<open>
  Arithmetic without rounding. The floats agree with it wherever the exact result is a
  float, as it is for the small integers and halves of the examples below.
\<close>

definition exact :: float_ops where
  "exact = \<lparr>fadd = (+), fsub = (-), fdiv = (/)\<rparr>"

definition content_words :: "float_ops \<Rightarrow> word list \<Rightarrow> word list" where
  "content_words ops words =
     (case sort_key wtop words of
        [] \<Rightarrow> words
      | w0 # _ \<Rightarrow>
          (let top_y = wtop w0;
               header_threshold = fadd ops top_y 5;
               cw = filter (\<lambda>w. wtop w > header_threshold) words
           in if cw = [] then words else cw))"

definition gaps :: "float_ops \<Rightarrow> rat list \<Rightarrow> (rat \<times> rat \<times> rat) list" where
  "gaps ops x_positions =
     map (\<lambda>j. (fsub ops (x_positions ! (j + 1)) (x_positions ! j),
                x_positions ! j, x_positions ! (j + 1)))
         [0 ..< length x_positions - 1]"

definition column_boundary :: "float_ops \<Rightarrow> word list \<Rightarrow> rat \<Rightarrow> rat" where
  "column_boundary ops cw width =
     (let x_positions = sort (map x0 cw)
      in case rev (sort (gaps ops x_positions)) of
           [] \<Rightarrow> fdiv ops width 2
         | g # _ \<Rightarrow> fdiv ops (fadd ops (fst (snd g)) (snd (snd g))) 2)"

definition left_column_words :: "word list \<Rightarrow> rat \<Rightarrow> word list" where
  "left_column_words cw b = sort_key wtop (filter (\<lambda>w. x0 w < b) cw)"

definition right_column_words :: "word list \<Rightarrow> rat \<Rightarrow> word list" where
  "right_column_words cw b = sort_key wtop (filter (\<lambda>w. \<not> x0 w < b) cw)"

definition extract_text_in_columns :: "float_ops \<Rightarrow> word list \<Rightarrow> rat \<Rightarrow> string" where
  "extract_text_in_columns ops words width =
     (if words = [] then []
      else
        (let cw = content_words ops words;
             b = column_boundary ops cw width;
             left_text = join '' '' (map wtext (left_column_words cw b));
             right_text = join '' '' (map wtext (right_column_words cw b))
         in left_text @ [CHR 0x0A, CHR 0x0A] @ right_text))"


section \<open>Regular expressions of the parser\<close>

text \<open>
  Each pattern of the source is a fixed literal, a greedy run of a character class and a
  literal again. The character after a run of \<open>\d+\<close> is never a digit in these patterns,
  so giving characters back never yields a match that the greedy run misses: matching at a
  position is a function, and \<open>re.sub\<close>, \<open>re.search\<close>, \<open>re.finditer\<close> and
  \<open>re.findall\<close> scan from the left for the next position that matches.
\<close>

fun match_literal :: "string \<Rightarrow> string \<Rightarrow> string option" where
  "match_literal [] s = Some s"
| "match_literal (p # ps) [] = None"
| "match_literal (p # ps) (c # cs) = (if p = c then match_literal ps cs else None)"

text \<open>\<open>\d+\<close> at the head of the text: the digits and the rest.\<close>

definition match_digits :: "string \<Rightarrow> (string \<times> string) option" where
  "match_digits s =
     (let ds = takeWhile is_digit s
      in if ds = [] then None else Some (ds, dropWhile is_digit s))"

text \<open>\<open>\n---PAGE_\d+---\n\<close> at the head of the text: the rest after the match.\<close>

definition match_page_line :: "string \<Rightarrow> string option" where
  "match_page_line s =
     (case match_literal (CHR 0x0A # ''---PAGE_'') s of
        None \<Rightarrow> None
      | Some r \<Rightarrow>
          (case match_digits r of
             None \<Rightarrow> None
           | Some (ds, r') \<Rightarrow> match_literal (''---'' @ [CHR 0x0A]) r'))"

text \<open>\<open>---PAGE_(\d+)---\<close> at the head of the text: group 1.\<close>

definition match_page :: "string \<Rightarrow> string option" where
  "match_page s =
     (case match_literal ''---PAGE_'' s of
        None \<Rightarrow> None
      | Some r \<Rightarrow>
          (case match_digits r of
             None \<Rightarrow> None
           | Some (ds, r') \<Rightarrow>
               (case match_literal ''---'' r' of None \<Rightarrow> None | Some _ \<Rightarrow> Some ds)))"

text \<open>\<open>\[(\d+)\]\<close> at the head of the text: group 1 and the rest after the match.\<close>

definition match_tag :: "string \<Rightarrow> (string \<times> string) option" where
  "match_tag s =
     (case s of
        [] \<Rightarrow> None
      | c # r \<Rightarrow>
          if c \<noteq> CHR ''['' then None
          else (case match_digits r of
                  None \<Rightarrow> None
                | Some (ds, r') \<Rightarrow>
                    (case r' of
                       [] \<Rightarrow> None
                     | d # r'' \<Rightarrow> if d = CHR '']'' then Some (ds, r'') else None)))"

lemma match_literal_length: "match_literal p s = Some r \<Longrightarrow> length s = length p + length r"
  by (induction p s rule: match_literal.induct) (auto split: if_splits)

lemma match_digits_length: "match_digits s = Some (ds, r) \<Longrightarrow> length s = length ds + length r"
proof -
  assume "match_digits s = Some (ds, r)"
  then have "ds = takeWhile is_digit s" "r = dropWhile is_digit s"
    by (auto simp: match_digits_def Let_def split: if_splits)
  then have "s = ds @ r" by simp
  then show ?thesis by (metis length_append)
qed

lemma match_page_line_shorter: "match_page_line s = Some r \<Longrightarrow> length r < length s"
  by (auto simp: match_page_line_def split: option.splits
      dest!: match_literal_length match_digits_length)

lemma match_tag_shorter: "match_tag s = Some (ds, r) \<Longrightarrow> length r < length s"
  by (auto simp: match_tag_def split: option.splits list.splits if_splits
      dest!: match_digits_length)

text \<open>\<open>re.sub(r'\n---PAGE_\d+---\n', ' ', text)\<close>\<close>

function sub_page_lines :: "string \<Rightarrow> string" where
  "sub_page_lines [] = []"
| "sub_page_lines (c # cs) =
     (case match_page_line (c # cs) of
        Some rest \<Rightarrow> CHR '' '' # sub_page_lines rest
      | None \<Rightarrow> c # sub_page_lines cs)"
  by pat_completeness auto
termination
  by (relation "measure length") (auto dest: match_page_line_shorter)

text \<open>\<open>re.sub(r'\s+', ' ', s)\<close>\<close>

function sub_whitespace :: "string \<Rightarrow> string" where
  "sub_whitespace [] = []"
| "sub_whitespace (c # cs) =
     (if is_space c then CHR '' '' # sub_whitespace (dropWhile is_space cs)
      else c # sub_whitespace cs)"
  by pat_completeness auto
termination
  by (relation "measure length") (auto simp: less_Suc_eq_le length_dropWhile_le)

text \<open>
  \<open>re.search(r'---PAGE_(\d+)---', s)\<close>: group 1 of the leftmost match, \<open>None\<close> when
  there is none.
\<close>

fun search_page :: "string \<Rightarrow> string option" where
  "search_page [] = None"
| "search_page (c # cs) =
     (case match_page (c # cs) of Some ds \<Rightarrow> Some ds | None \<Rightarrow> search_page cs)"

text \<open>
  A match object of \<open>re.finditer(r'\[(\d+)\]([^[]*)', clean_text)\<close>: \<open>match.start()\<close>
  and the two groups.
\<close>

record rmatch =
  start :: nat
  group1 :: string
  group2 :: string

function finditer :: "nat \<Rightarrow> string \<Rightarrow> rmatch list" where
  "finditer pos [] = []"
| "finditer pos (c # cs) =
     (case match_tag (c # cs) of
        Some (ds, r) \<Rightarrow>
          (let g2 = takeWhile (\<lambda>x. x \<noteq> CHR ''['') r;
               rest = dropWhile (\<lambda>x. x \<noteq> CHR ''['') r
           in \<lparr>start = pos, group1 = ds, group2 = g2\<rparr>
              # finditer (pos + (length (c # cs) - length rest)) rest)
      | None \<Rightarrow> finditer (pos + 1) cs)"
  by pat_completeness auto
termination
proof (relation "measure (\<lambda>(pos, s). length s)")
  show "wf (measure (\<lambda>(pos, s). length s))" by simp
next
  fix pos :: nat and c cs x2 ds r g2 rest
  assume a: "match_tag (c # cs) = Some x2" "(ds, r) = x2"
    "rest = dropWhile (\<lambda>x. x \<noteq> CHR ''['') r"
  then have "length r < length (c # cs)" by (auto dest: match_tag_shorter)
  moreover have "length rest \<le> length r" unfolding a(3) by (rule length_dropWhile_le)
  ultimately show "((pos + (length (c # cs) - length rest), rest), pos, c # cs)
      \<in> measure (\<lambda>(pos, s). length s)" by simp
next
  fix pos :: nat and c cs
  show "((pos + 1, cs), pos, c # cs) \<in> measure (\<lambda>(pos, s). length s)" by simp
qed

text \<open>\<open>re.findall(r'\[(\d+)\]', s)\<close>: group 1 of every match, from left to right.\<close>

function findall :: "string \<Rightarrow> string list" where
  "findall [] = []"
| "findall (c # cs) =
     (case match_tag (c # cs) of
        Some (ds, r) \<Rightarrow> ds # findall r
      | None \<Rightarrow> findall cs)"
  by pat_completeness auto
termination
  by (relation "measure length") (auto dest: match_tag_shorter)


section \<open>String operations\<close>

text \<open>\<open>s.strip()\<close>\<close>

definition strip :: "string \<Rightarrow> string" where
  "strip s = rev (dropWhile is_space (rev (dropWhile is_space s)))"

text \<open>\<open>s.split()\<close>: the maximal runs of characters that are not white space.\<close>

function split :: "string \<Rightarrow> string list" where
  "split s =
     (case dropWhile is_space s of
        [] \<Rightarrow> []
      | c # cs \<Rightarrow> (c # takeWhile (\<lambda>x. \<not> is_space x) cs) # split (dropWhile (\<lambda>x. \<not> is_space x) cs))"
  by pat_completeness auto
termination
proof (relation "measure length")
  show "wf (measure length)" by simp
next
  fix s :: string and c cs
  assume a: "dropWhile is_space s = c # cs"
  have "length (dropWhile (\<lambda>x. \<not> is_space x) cs) \<le> length cs" by (rule length_dropWhile_le)
  moreover have "length (c # cs) \<le> length s" unfolding a [symmetric] by (rule length_dropWhile_le)
  ultimately show "(dropWhile (\<lambda>x. \<not> is_space x) cs, s) \<in> measure length" by simp
qed

text \<open>The exceptions of the source.\<close>

datatype error = OpenError | IndexError | PageReadError | ValueError

text \<open>
  \<open>int(s)\<close> on a non-empty string of decimal digits, which is what the source applies it
  to (group 1 of a pattern with \<open>\d+\<close>). CPython refuses to convert a string of more than
  4300 digits, leading zeros counted, and raises \<open>ValueError\<close>.
\<close>

definition digit_value :: "char \<Rightarrow> int" where
  "digit_value c = int (of_char c) - 48"

definition digits_value :: "string \<Rightarrow> int" where
  "digits_value ds = foldl (\<lambda>a c. 10 * a + digit_value c) 0 ds"

definition py_int :: "string \<Rightarrow> error + int" where
  "py_int ds = (if length ds > 4300 then Inl ValueError else Inr (digits_value ds))"

text \<open>
  \<open>str(n)\<close>, as the f-strings of the source format an integer. The source formats the
  result of an \<open>int(s)\<close> that has returned, and the number of a page of the document; the
  conversion is refused for an integer of more than 4300 digits only.
\<close>

function str_nat :: "nat \<Rightarrow> string" where
  "str_nat n = (if n < 10 then [''0123456789'' ! n]
                else str_nat (n div 10) @ [''0123456789'' ! (n mod 10)])"
  by pat_completeness auto
termination
  by (relation "measure id") auto

definition str_int :: "int \<Rightarrow> string" where
  "str_int i = (if i < 0 then CHR ''-'' # str_nat (nat (- i)) else str_nat (nat i))"

text \<open>\<open>text[:k]\<close>: a negative \<open>k\<close> counts from the end.\<close>

definition slice_to :: "string \<Rightarrow> int \<Rightarrow> string" where
  "slice_to s k = (if k < 0 then take (nat (int (length s) + k)) s else take (nat k) s)"

declare sub_page_lines.simps [simp del] sub_whitespace.simps [simp del] finditer.simps [simp del]
  findall.simps [simp del] split.simps [simp del] str_nat.simps [simp del]

section \<open>PageAggregator: \<open>extract_text_from_pdf\<close>\<close>

text \<open>
  A page of the document: \<open>page.extract_words()\<close> either returns the words or raises,
  and \<open>page.width\<close>. \<open>pdfplumber.open\<close> either gives the list of pages or raises.
\<close>

record page =
  extract_words :: "word list option"
  width :: rat

text \<open>\<open>pdf.pages[page_num]\<close>: a negative index counts from the end.\<close>

definition pages_index :: "page list \<Rightarrow> int \<Rightarrow> error + page" where
  "pages_index pages i =
     (let n = int (length pages); j = (if i < 0 then n + i else i)
      in if 0 \<le> j \<and> j < n then Inr (pages ! nat j) else Inl IndexError)"

text \<open>
  The body of \<open>for i in range(num_pages)\<close>, with \<open>page_num = start_idx + i\<close> and the
  number of iterations that remain. An exception leaves the loop as \<open>Inl\<close>.
\<close>

fun page_loop :: "float_ops \<Rightarrow> page list \<Rightarrow> int \<Rightarrow> nat \<Rightarrow> string \<Rightarrow> error + string" where
  "page_loop ops pages page_num 0 full_text = Inr full_text"
| "page_loop ops pages page_num (Suc n) full_text =
     (if page_num \<ge> int (length pages) then Inr full_text
      else
        (case pages_index pages page_num of
           Inl e \<Rightarrow> Inl e
         | Inr page \<Rightarrow>
             (case extract_words page of
                None \<Rightarrow> Inl PageReadError
              | Some words \<Rightarrow>
                  (let text = extract_text_in_columns ops words (width page)
                   in page_loop ops pages (page_num + 1) n
                        (if text \<noteq> []
                         then full_text @ [CHR 0x0A] @ ''---PAGE_'' @ str_int (page_num + 1)
                                @ ''---'' @ [CHR 0x0A] @ text
                         else full_text)))))"

text \<open>The \<open>try\<close> block around the whole loop: any exception returns the empty string.\<close>

definition extract_text_from_pdf :: "float_ops \<Rightarrow> page list option \<Rightarrow> int \<Rightarrow> int \<Rightarrow> string" where
  "extract_text_from_pdf ops pdf start_page num_pages =
     (case pdf of
        None \<Rightarrow> []
      | Some pages \<Rightarrow>
          (let start_idx = start_page - 1
           in case page_loop ops pages start_idx (nat num_pages) [] of
                Inl e \<Rightarrow> []
              | Inr full_text \<Rightarrow> full_text))"

section \<open>EntryParser: \<open>parse_scientist_entries\<close>\<close>

text \<open>
  \<open>Scientist\<close> objects are shared: the object bound to \<open>current_scientist\<close> is the one
  stored in \<open>self.scientists\<close>, and it is changed after it has been stored. The model keeps
  the objects in a store (\<open>heap\<close>, a reference is an index) and lets the dictionary and
  \<open>current_scientist\<close> hold references. The dictionary is an association list in insertion
  order; the set \<open>connections\<close> is a list without duplicates, whose order stands for the
  iteration order of the Python set and is used by no theorem. The fields
  \<open>current_scientist\<close> and \<open>current_biography\<close> of the state are the local variables of
  \<open>parse_scientist_entries\<close>, which sets them to \<open>None\<close> and the empty string at its start.
\<close>

record scientist =
  sci_id :: int
  name :: string
  biography :: string
  page_number :: int
  connections :: "int list"

record extractor =
  heap :: "scientist list"
  scientists :: "(int \<times> nat) list"
  relationships :: "(int \<times> int) list"
  current_scientist :: "nat option"
  current_biography :: string

text \<open>A new \<open>FinalScientistExtractor\<close>.\<close>

definition init :: extractor where
  "init = \<lparr>heap = [], scientists = [], relationships = [],
           current_scientist = None, current_biography = []\<rparr>"

text \<open>The object a dictionary key stands for.\<close>

definition lookup :: "extractor \<Rightarrow> int \<Rightarrow> scientist option" where
  "lookup st k = map_option (\<lambda>r. heap st ! r) (map_of (scientists st) k)"

text \<open>
  \<open>page_number = int(page_match.group(1)) if page_match else 0\<close> for
  \<open>page_match = re.search(r'---PAGE_(\d+)---', prefix)\<close>; the conversion can raise.
\<close>

definition page_of :: "string \<Rightarrow> error + int" where
  "page_of prefix = (case search_page prefix of Some ds \<Rightarrow> py_int ds | None \<Rightarrow> Inr 0)"

text \<open>
  Saving the current scientist (the source has this block twice, in the loop and after it,
  with a different prefix of \<open>text\<close> for the page search). When the conversion of the page
  number raises, nothing has been assigned yet.
\<close>

definition save_current :: "string \<Rightarrow> extractor \<Rightarrow> error + extractor" where
  "save_current prefix st =
     (case current_scientist st of
        None \<Rightarrow> Inr st
      | Some r \<Rightarrow>
          (let biography1 = strip (current_biography st);
               biography2 = strip (sub_whitespace biography1)
           in case page_of prefix of
                Inl e \<Rightarrow> Inl e
              | Inr page_number1 \<Rightarrow>
                  (let obj = (heap st ! r)\<lparr>page_number := page_number1, biography := biography2\<rparr>
                   in Inr (st\<lparr>heap := (heap st)[r := obj],
                              scientists := AList.update (sci_id obj) r (scientists st)\<rparr>))))"

text \<open>\<open>current_scientist.connections.add(scientist_id)\<close>\<close>

definition connections_add :: "int \<Rightarrow> scientist \<Rightarrow> scientist" where
  "connections_add i sc = sc\<lparr>connections := List.insert i (connections sc)\<rparr>"

text \<open>
  The body of \<open>for match in matches\<close>. Its first statement,
  \<open>scientist_id = int(match.group(1))\<close>, and the saving of the current scientist can raise;
  the source catches neither.
\<close>

definition process_match :: "string \<Rightarrow> extractor \<Rightarrow> rmatch \<Rightarrow> error + extractor" where
  "process_match text st m =
     (case py_int (group1 m) of
        Inl e \<Rightarrow> Inl e
      | Inr scientist_id \<Rightarrow>
          (let text_after_bracket = strip (group2 m);
               words = split text_after_bracket
           in case words of
                first_word # rest \<Rightarrow>
                  (let capital_count = length (filter isupper first_word)
                   in case save_current (take (start m) text) st of
                        Inl e \<Rightarrow> Inl e
                      | Inr st1 \<Rightarrow>
                          if capital_count \<ge> 2 \<and> length first_word > 2
                          then Inr (st1\<lparr>heap := heap st1 @ [\<lparr>sci_id = scientist_id,
                                                                name = first_word,
                                                                biography = [], page_number = 0,
                                                                connections = []\<rparr>],
                                        current_scientist := Some (length (heap st1)),
                                        current_biography :=
                                          (if length words > 1 then join '' '' rest else [])\<rparr>)
                          else
                            (case current_scientist st1 of
                               Some r \<Rightarrow>
                                 Inr (st1\<lparr>heap := (heap st1)[r := connections_add scientist_id
                                                                      (heap st1 ! r)],
                                          current_biography :=
                                            current_biography st1 @ '' ['' @ str_int scientist_id
                                              @ ''] '' @ text_after_bracket\<rparr>)
                             | None \<Rightarrow> Inr st1))
              | [] \<Rightarrow>
                  (case current_scientist st of
                     Some r \<Rightarrow>
                       Inr (st\<lparr>heap := (heap st)[r := connections_add scientist_id (heap st ! r)],
                               current_biography :=
                                 current_biography st @ '' ['' @ str_int scientist_id @ '']''\<rparr>)
                   | None \<Rightarrow> Inr st)))"

text \<open>The loop over the matches: an exception ends it.\<close>

fun matches_loop :: "string \<Rightarrow> extractor \<Rightarrow> rmatch list \<Rightarrow> error + extractor" where
  "matches_loop text st [] = Inr st"
| "matches_loop text st (m # ms) =
     (case process_match text st m of
        Inl e \<Rightarrow> Inl e
      | Inr st1 \<Rightarrow> matches_loop text st1 ms)"

definition clean_text :: "string \<Rightarrow> string" where
  "clean_text text = sub_whitespace (sub_page_lines text)"

definition parse_scientist_entries :: "string \<Rightarrow> extractor \<Rightarrow> error + extractor" where
  "parse_scientist_entries text st =
     (let matches = finditer 0 (clean_text text)
      in case matches_loop text (st\<lparr>current_scientist := None, current_biography := []\<rparr>)
                matches of
           Inl e \<Rightarrow> Inl e
         | Inr st1 \<Rightarrow>
             save_current
               (slice_to text (int (length text) - int (length (current_biography st1)))) st1)"

section \<open>ReferenceResolver: \<open>extract_connections\<close>\<close>

text \<open>
  The inner loop over \<open>re.findall(ref_pattern, scientist.biography)\<close>. Here the source
  catches the \<open>ValueError\<close> of \<open>int(ref)\<close> and goes on to the next reference.
\<close>

definition add_references :: "int \<Rightarrow> scientist \<Rightarrow> scientist" where
  "add_references scientist_id sc =
     foldl (\<lambda>s ref. case py_int ref of
                       Inl e \<Rightarrow> s
                     | Inr ref_id \<Rightarrow>
                         if ref_id \<noteq> scientist_id then connections_add ref_id s else s)
           sc (findall (biography sc))"

definition extract_connections :: "extractor \<Rightarrow> extractor" where
  "extract_connections st =
     st\<lparr>heap := foldl (\<lambda>h (scientist_id, r). h[r := add_references scientist_id (h ! r)])
                      (heap st) (scientists st)\<rparr>"

section \<open>GraphBuilder: \<open>create_relationships\<close>\<close>

text \<open>A relationship \<open>{"source": s, "target": t}\<close> is the pair \<open>(s, t)\<close>.\<close>

definition create_relationships :: "extractor \<Rightarrow> extractor" where
  "create_relationships st =
     st\<lparr>relationships := relationships st @
          concat (map (\<lambda>(scientist_id, r).
                         map (\<lambda>target_id. (scientist_id, target_id)) (connections (heap st ! r)))
                      (scientists st))\<rparr>"

text \<open>The nodes of \<open>generate_network_json\<close>: one per value of \<open>self.scientists\<close>.\<close>

definition nodes :: "extractor \<Rightarrow> scientist list" where
  "nodes st = map (\<lambda>(k, r). heap st ! r) (scientists st)"

section \<open>The driver: \<open>process\<close>\<close>

text \<open>
  How a run ends: with the message \<open>Failed to extract text from PDF\<close> and nothing parsed
  or written, with an exception of the parser, or with the graph that
  \<open>generate_network_json\<close> is then given to write (the writing of the file and the printed
  statistics are not modelled).
\<close>

datatype run = Failed_to_extract_text | Raised error | Completed extractor

definition process :: "float_ops \<Rightarrow> page list option \<Rightarrow> int \<Rightarrow> int \<Rightarrow> extractor \<Rightarrow> run" where
  "process ops pdf start_page num_pages st =
     (let text = extract_text_from_pdf ops pdf start_page num_pages
      in if text = [] then Failed_to_extract_text
         else
           (case parse_scientist_entries text st of
              Inl e \<Rightarrow> Raised e
            | Inr st1 \<Rightarrow> Completed (create_relationships (extract_connections st1))))"


section \<open>Properties of the ColumnSegmenter\<close>

lemma join_append:
  "join sep (xs @ ys) = join sep xs @ (if xs = [] \<or> ys = [] then [] else sep) @ join sep ys"
  by (induction sep xs rule: join.induct) (auto simp: neq_Nil_conv)

lemma join_Cons: "join sep (x # xs) = x @ (if xs = [] then [] else sep) @ join sep xs"
  by (cases xs) auto

lemma join_nth_split:
  assumes "i < length ws"
  shows "\<exists>p r. join sep ws = p @ ws ! i @ r
           \<and> r = (if Suc i = length ws then [] else sep) @ join sep (drop (Suc i) ws)"
proof -
  have "ws = take i ws @ (ws ! i # drop (Suc i) ws)"
    using assms by (simp add: id_take_nth_drop [symmetric])
  then have "join sep ws = join sep (take i ws @ (ws ! i # drop (Suc i) ws))" by simp
  also have "\<dots> = (join sep (take i ws) @ (if i = 0 then [] else sep)) @ ws ! i @
                  ((if Suc i = length ws then [] else sep) @ join sep (drop (Suc i) ws))"
    using assms by (auto simp: join_append join_Cons)
  finally show ?thesis by blast
qed

lemma join_precedes:
  assumes "i < j" "j < length ws"
  shows "\<exists>p q r. join sep ws = p @ ws ! i @ q @ ws ! j @ r"
proof -
  have i: "i < length ws" using assms by simp
  from join_nth_split [OF i, of sep] obtain p r where
    a: "join sep ws = p @ ws ! i @ r" and
    r: "r = (if Suc i = length ws then [] else sep) @ join sep (drop (Suc i) ws)" by blast
  have "j - Suc i < length (drop (Suc i) ws)" using assms by simp
  from join_nth_split [OF this, of sep] obtain p' r' where
    b: "join sep (drop (Suc i) ws) = p' @ drop (Suc i) ws ! (j - Suc i) @ r'" by blast
  have "drop (Suc i) ws ! (j - Suc i) = ws ! j" using assms by simp
  with a r b have "join sep ws
      = p @ ws ! i @ ((if Suc i = length ws then [] else sep) @ p') @ ws ! j @ r'"
    by simp
  then show ?thesis by blast
qed

lemma sorted_key_index:
  fixes f :: "'a \<Rightarrow> rat"
  assumes "sorted (map f L)" "i < length L" "j < length L" "f (L ! i) < f (L ! j)"
  shows "i < j"
proof (rule ccontr)
  assume "\<not> i < j"
  then have "j \<le> i" by simp
  with assms(1,2) have "map f L ! j \<le> map f L ! i"
    by (intro sorted_nth_mono) auto
  with assms show False by simp
qed

lemma extract_text_in_columns_nonempty:
  assumes "words \<noteq> []"
  shows "extract_text_in_columns ops words w =
     join '' '' (map wtext (left_column_words (content_words ops words)
                              (column_boundary ops (content_words ops words) w)))
     @ [CHR 0x0A, CHR 0x0A] @
     join '' '' (map wtext (right_column_words (content_words ops words)
                              (column_boundary ops (content_words ops words) w)))"
  using assms by (simp add: extract_text_in_columns_def Let_def)

lemma column_order:
  assumes "sorted (map wtop M)" "i < length M" "j < length M" "wtop (M ! i) < wtop (M ! j)"
  shows "i < j \<and> (\<exists>p q r. join sep (map wtext M) = p @ wtext (M ! i) @ q @ wtext (M ! j) @ r)"
proof -
  have ij: "i < j" using sorted_key_index [OF assms] .
  have "j < length (map wtext M)" using assms by simp
  from join_precedes [OF ij this, of sep] assms ij show ?thesis
    by simp
qed

lemma join_nth_text:
  assumes "i < length M"
  shows "\<exists>p r. join sep (map wtext M) = p @ wtext (M ! i) @ r"
proof -
  have "i < length (map wtext M)" using assms by simp
  from join_nth_split [OF this, of sep] obtain p r where
    "join sep (map wtext M) = p @ map wtext M ! i @ r" by blast
  then show ?thesis using assms by auto
qed

text \<open>
  C7. When the page has words, the output is the left segment, a blank line, the right
  segment; a segment is the texts of its words joined by single spaces. The left words are
  the retained words with \<open>x0\<close> below the boundary, the right words the others. Within a
  segment a word with a smaller \<open>top\<close> stands at a smaller index, and its text stands
  before the other word's text in the segment; the text of every left word stands before
  the blank line and the text of every right word after it.
\<close>

theorem column_reading_order:
  assumes "words \<noteq> []"
    and "cw = content_words ops words"
    and "b = column_boundary ops cw w"
    and "L = left_column_words cw b"
    and "R = right_column_words cw b"
  shows "extract_text_in_columns ops words w =
            join '' '' (map wtext L) @ [CHR 0x0A, CHR 0x0A] @ join '' '' (map wtext R)
          \<and> set L = {t \<in> set cw. x0 t < b} \<and> set R = {t \<in> set cw. \<not> x0 t < b}
          \<and> (\<forall>i<length L. \<forall>j<length L. wtop (L ! i) < wtop (L ! j) \<longrightarrow>
                i < j \<and> (\<exists>p q r. join '' '' (map wtext L) = p @ wtext (L ! i) @ q @ wtext (L ! j) @ r))
          \<and> (\<forall>i<length R. \<forall>j<length R. wtop (R ! i) < wtop (R ! j) \<longrightarrow>
                i < j \<and> (\<exists>p q r. join '' '' (map wtext R) = p @ wtext (R ! i) @ q @ wtext (R ! j) @ r))
          \<and> (\<forall>i<length L. \<forall>j<length R.
                \<exists>p q q' r. extract_text_in_columns ops words w =
                   p @ wtext (L ! i) @ q @ [CHR 0x0A, CHR 0x0A] @ q' @ wtext (R ! j) @ r)"
proof -
  have out: "extract_text_in_columns ops words w =
            join '' '' (map wtext L) @ [CHR 0x0A, CHR 0x0A] @ join '' '' (map wtext R)"
    using extract_text_in_columns_nonempty [OF assms(1), of ops w] assms(2-5) by simp
  have setL: "set L = {t \<in> set cw. x0 t < b}"
    unfolding assms(4) left_column_words_def by simp
  have setR: "set R = {t \<in> set cw. \<not> x0 t < b}"
    unfolding assms(5) right_column_words_def by simp
  have sL: "sorted (map wtop L)" unfolding assms(4) left_column_words_def by simp
  have sR: "sorted (map wtop R)" unfolding assms(5) right_column_words_def by simp
  have oL: "\<forall>i<length L. \<forall>j<length L. wtop (L ! i) < wtop (L ! j) \<longrightarrow>
                i < j \<and> (\<exists>p q r. join '' '' (map wtext L) = p @ wtext (L ! i) @ q @ wtext (L ! j) @ r)"
    using column_order [OF sL] by blast
  have oR: "\<forall>i<length R. \<forall>j<length R. wtop (R ! i) < wtop (R ! j) \<longrightarrow>
                i < j \<and> (\<exists>p q r. join '' '' (map wtext R) = p @ wtext (R ! i) @ q @ wtext (R ! j) @ r)"
    using column_order [OF sR] by blast
  have lr: "\<exists>p q q' r. extract_text_in_columns ops words w =
                   p @ wtext (L ! i) @ q @ [CHR 0x0A, CHR 0x0A] @ q' @ wtext (R ! j) @ r"
    if "i < length L" "j < length R" for i j
  proof -
    from join_nth_text [OF that(1), of "'' ''"] obtain p q where
      l: "join '' '' (map wtext L) = p @ wtext (L ! i) @ q" by blast
    from join_nth_text [OF that(2), of "'' ''"] obtain q' r where
      r: "join '' '' (map wtext R) = q' @ wtext (R ! j) @ r" by blast
    have "extract_text_in_columns ops words w =
        p @ wtext (L ! i) @ q @ [CHR 0x0A, CHR 0x0A] @ q' @ wtext (R ! j) @ r"
      unfolding out l r by simp
    then show ?thesis by blast
  qed
  then have lr': "\<forall>i<length L. \<forall>j<length R.
                \<exists>p q q' r. extract_text_in_columns ops words w =
                   p @ wtext (L ! i) @ q @ [CHR 0x0A, CHR 0x0A] @ q' @ wtext (R ! j) @ r"
    by blast
  from out setL setR oL oR lr' show ?thesis by (intro conjI)
qed

text \<open>
  A page with a header line and two columns whose left edges are 10, 12, 14 and
  200, 202, 205.
\<close>

definition example_page :: "word list" where
  "example_page =
     [\<lparr>wtext = ''TITLE'', x0 = 10, wtop = 0\<rparr>,
      \<lparr>wtext = ''a'', x0 = 10, wtop = 20\<rparr>,
      \<lparr>wtext = ''b'', x0 = 12, wtop = 30\<rparr>,
      \<lparr>wtext = ''c'', x0 = 14, wtop = 10\<rparr>,
      \<lparr>wtext = ''d'', x0 = 200, wtop = 10\<rparr>,
      \<lparr>wtext = ''e'', x0 = 202, wtop = 30\<rparr>,
      \<lparr>wtext = ''f'', x0 = 205, wtop = 20\<rparr>]"

lemma example_content: "content_words exact example_page = tl example_page"
  by (simp add: content_words_def example_page_def exact_def)

lemma example_boundary: "column_boundary exact (tl example_page) 600 = 107"
  by (simp add: column_boundary_def gaps_def example_page_def exact_def upt_rec numeral_nat
      less_eq_prod_def less_prod_def)

lemma example_left:
  "left_column_words (tl example_page) 107 =
     [\<lparr>wtext = ''c'', x0 = 14, wtop = 10\<rparr>,
      \<lparr>wtext = ''a'', x0 = 10, wtop = 20\<rparr>,
      \<lparr>wtext = ''b'', x0 = 12, wtop = 30\<rparr>]"
  by (simp add: left_column_words_def example_page_def)

lemma example_right:
  "right_column_words (tl example_page) 107 =
     [\<lparr>wtext = ''d'', x0 = 200, wtop = 10\<rparr>,
      \<lparr>wtext = ''f'', x0 = 205, wtop = 20\<rparr>,
      \<lparr>wtext = ''e'', x0 = 202, wtop = 30\<rparr>]"
  by (simp add: right_column_words_def example_page_def)

theorem column_reading_order_witness:
  "example_page \<noteq> []
   \<and> extract_text_in_columns exact example_page 600 = ''c a b'' @ [CHR 0x0A, CHR 0x0A] @ ''d f e''
   \<and> (\<exists>p q r. ''c a b'' = p @ ''c'' @ q @ ''a'' @ r)
   \<and> (\<exists>p q q' r. extract_text_in_columns exact example_page 600
                    = p @ ''b'' @ q @ [CHR 0x0A, CHR 0x0A] @ q' @ ''d'' @ r)"
proof -
  have ne: "example_page \<noteq> []" by (simp add: example_page_def)
  note t = column_reading_order [OF ne example_content [symmetric] example_boundary [symmetric]
      example_left [symmetric] example_right [symmetric]]
  have 1: "extract_text_in_columns exact example_page 600
      = ''c a b'' @ [CHR 0x0A, CHR 0x0A] @ ''d f e''"
    using t [THEN conjunct1] by simp
  have 2: "\<exists>p q r. ''c a b'' = p @ ''c'' @ q @ ''a'' @ r"
    using t [THEN conjunct2, THEN conjunct2, THEN conjunct2, THEN conjunct1, rule_format, of 0 1]
    by simp
  have 3: "\<exists>p q q' r. extract_text_in_columns exact example_page 600
      = p @ ''b'' @ q @ [CHR 0x0A, CHR 0x0A] @ q' @ ''d'' @ r"
    using t [THEN conjunct2, THEN conjunct2, THEN conjunct2, THEN conjunct2, THEN conjunct2,
        rule_format, of 2 0]
    by simp
  from ne 1 2 3 show ?thesis by (intro conjI)
qed



subsection \<open>The column boundary\<close>

lemma sorted_le_last:
  fixes xs :: "'a::linorder list"
  assumes "sorted xs" "x \<in> set xs"
  shows "x \<le> last xs"
proof -
  from assms(2) obtain i where i: "i < length xs" "xs ! i = x" by (auto simp: in_set_conv_nth)
  then have ne: "xs \<noteq> []" by auto
  have "xs ! i \<le> xs ! (length xs - 1)"
    using assms(1) i by (intro sorted_nth_mono) auto
  then show ?thesis using i ne by (simp add: last_conv_nth)
qed

lemma length_gaps: "length (gaps ops xs) = length xs - 1"
  by (simp add: gaps_def)

lemma set_gaps:
  "g \<in> set (gaps ops xs)
     \<longleftrightarrow> (\<exists>j. Suc j < length xs \<and> g = (fsub ops (xs ! Suc j) (xs ! j), xs ! j, xs ! Suc j))"
proof
  assume "g \<in> set (gaps ops xs)"
  then obtain j where "j < length xs - 1"
    "g = (fsub ops (xs ! (j + 1)) (xs ! j), xs ! j, xs ! (j + 1))"
    by (auto simp: gaps_def)
  then have "Suc j < length xs \<and> g = (fsub ops (xs ! Suc j) (xs ! j), xs ! j, xs ! Suc j)"
    by simp
  then show "\<exists>j. Suc j < length xs \<and> g = (fsub ops (xs ! Suc j) (xs ! j), xs ! j, xs ! Suc j)" ..
next
  assume "\<exists>j. Suc j < length xs \<and> g = (fsub ops (xs ! Suc j) (xs ! j), xs ! j, xs ! Suc j)"
  then obtain j where j: "Suc j < length xs"
    "g = (fsub ops (xs ! Suc j) (xs ! j), xs ! j, xs ! Suc j)"
    by blast
  then have "j \<in> set [0 ..< length xs - 1]" by simp
  then have "(fsub ops (xs ! (j + 1)) (xs ! j), xs ! j, xs ! (j + 1)) \<in> set (gaps ops xs)"
    unfolding gaps_def set_map by (rule imageI)
  then show "g \<in> set (gaps ops xs)" using j by simp
qed

lemma column_boundary_few:
  assumes "length cw < 2"
  shows "column_boundary ops cw w = fdiv ops w 2"
proof -
  have "gaps ops (sort (map x0 cw)) = []"
    using assms length_gaps [of ops "sort (map x0 cw)"] by simp
  then show ?thesis by (simp add: column_boundary_def)
qed

lemma column_boundary_many:
  assumes "2 \<le> length cw" and "xs = sort (map x0 cw)"
  shows "\<exists>j. Suc j < length cw
            \<and> column_boundary ops cw w = fdiv ops (fadd ops (xs ! j) (xs ! Suc j)) 2
            \<and> (\<forall>i. Suc i < length cw \<longrightarrow>
                  (fsub ops (xs ! Suc i) (xs ! i), xs ! i, xs ! Suc i)
                  \<le> (fsub ops (xs ! Suc j) (xs ! j), xs ! j, xs ! Suc j))"
proof -
  let ?gs = "gaps ops xs"
  have len: "length xs = length cw" by (simp add: assms(2))
  have ne: "sort ?gs \<noteq> []"
  proof -
    have "length (sort ?gs) = length cw - 1" using length_gaps [of ops xs] len by simp
    then have "0 < length (sort ?gs)" using assms(1) by simp
    then show ?thesis by blast
  qed
  define g where "g = last (sort ?gs)"
  have gin: "g \<in> set ?gs" using ne last_in_set [OF ne] by (simp add: g_def)
  have gmax: "g' \<le> g" if "g' \<in> set ?gs" for g'
    unfolding g_def using that by (intro sorted_le_last) auto
  from gin obtain j where j: "Suc j < length xs"
    "g = (fsub ops (xs ! Suc j) (xs ! j), xs ! j, xs ! Suc j)"
    unfolding set_gaps by blast
  have cb: "column_boundary ops cw w = fdiv ops (fadd ops (fst (snd g)) (snd (snd g))) 2"
    using ne by (cases "sort ?gs" rule: rev_cases) (simp_all add: column_boundary_def assms(2) g_def)
  have mx: "(fsub ops (xs ! Suc i) (xs ! i), xs ! i, xs ! Suc i)
            \<le> (fsub ops (xs ! Suc j) (xs ! j), xs ! j, xs ! Suc j)" if "Suc i < length cw" for i
  proof -
    have "\<exists>j. Suc j < length xs
        \<and> (fsub ops (xs ! Suc i) (xs ! i), xs ! i, xs ! Suc i)
          = (fsub ops (xs ! Suc j) (xs ! j), xs ! j, xs ! Suc j)"
      using that len by (intro exI [of _ i]) simp
    then have "(fsub ops (xs ! Suc i) (xs ! i), xs ! i, xs ! Suc i) \<in> set ?gs"
      unfolding set_gaps .
    from gmax [OF this] show ?thesis unfolding j(2) .
  qed
  have "Suc j < length cw" using j(1) len by simp
  moreover have "column_boundary ops cw w = fdiv ops (fadd ops (xs ! j) (xs ! Suc j)) 2"
    unfolding cb j(2) by simp
  ultimately show ?thesis using mx by blast
qed

lemma left_of_boundary:
  assumes "t \<in> set cw" "x0 t < b"
  shows "t \<in> set (left_column_words cw b)"
  using assms by (simp add: left_column_words_def)

text \<open>
  C8, as the code has it. The boundary is the page's horizontal midpoint (\<open>page.width / 2\<close>)
  when fewer than two words are retained, and only then. With two or more retained words,
  also when all of them share one \<open>x0\<close>, it is \<open>(a + b) / 2\<close> for the pair \<open>a\<close>, \<open>b\<close> of
  consecutive sorted \<open>x0\<close> values whose triple \<open>(b - a, a, b)\<close> is the greatest of all such
  triples, the sums, differences and quotients being those of the floats. For the clusters
  10, 12, 14 and 200, 202, 205, whose differences and midpoint the floats compute without
  rounding, the boundary is 107, strictly between 14 and 200, and every retained word of
  the first cluster is a left word.
\<close>

theorem column_boundary_rule:
  assumes "xs = sort (map x0 cw)" and "b = column_boundary ops cw w"
  shows "(length cw < 2 \<longrightarrow> b = fdiv ops w 2)
       \<and> (2 \<le> length cw \<longrightarrow>
            (\<exists>j. Suc j < length cw
                \<and> b = fdiv ops (fadd ops (xs ! j) (xs ! Suc j)) 2
                \<and> (\<forall>i. Suc i < length cw \<longrightarrow>
                      (fsub ops (xs ! Suc i) (xs ! i), xs ! i, xs ! Suc i)
                      \<le> (fsub ops (xs ! Suc j) (xs ! j), xs ! j, xs ! Suc j))))
       \<and> (xs = [10, 12, 14, 200, 202, 205]
            \<and> fsub ops 12 10 = 2 \<and> fsub ops 14 12 = 2 \<and> fsub ops 200 14 = 186
            \<and> fsub ops 202 200 = 2 \<and> fsub ops 205 202 = 3
            \<and> fadd ops 14 200 = 214 \<and> fdiv ops 214 2 = 107 \<longrightarrow>
            b = 107 \<and> 14 < b \<and> b < 200
            \<and> (\<forall>t\<in>set cw. x0 t \<le> 14 \<longrightarrow> t \<in> set (left_column_words cw b)))"
proof (intro conjI impI)
  assume "length cw < 2"
  then show "b = fdiv ops w 2" unfolding assms(2) by (rule column_boundary_few)
next
  assume "2 \<le> length cw"
  from column_boundary_many [OF this assms(1), of ops w]
  show "\<exists>j. Suc j < length cw
                \<and> b = fdiv ops (fadd ops (xs ! j) (xs ! Suc j)) 2
                \<and> (\<forall>i. Suc i < length cw \<longrightarrow>
                      (fsub ops (xs ! Suc i) (xs ! i), xs ! i, xs ! Suc i)
                      \<le> (fsub ops (xs ! Suc j) (xs ! j), xs ! j, xs ! Suc j))"
    unfolding assms(2) .
next
  assume a: "xs = [10, 12, 14, 200, 202, 205]
            \<and> fsub ops 12 10 = 2 \<and> fsub ops 14 12 = 2 \<and> fsub ops 200 14 = 186
            \<and> fsub ops 202 200 = 2 \<and> fsub ops 205 202 = 3
            \<and> fadd ops 14 200 = 214 \<and> fdiv ops 214 2 = 107"
  then have xs: "xs = [10, 12, 14, 200, 202, 205]" by blast
  have "length xs = length cw" by (simp add: assms(1))
  then have len: "length cw = 6" by (simp add: xs)
  then have "2 \<le> length cw" by simp
  from column_boundary_many [OF this assms(1), of ops w] obtain j where
    j: "Suc j < length cw" "b = fdiv ops (fadd ops (xs ! j) (xs ! Suc j)) 2"
       "\<forall>i. Suc i < length cw \<longrightarrow>
           (fsub ops (xs ! Suc i) (xs ! i), xs ! i, xs ! Suc i)
           \<le> (fsub ops (xs ! Suc j) (xs ! j), xs ! j, xs ! Suc j)"
    unfolding assms(2) by blast
  have "Suc 2 < length cw" by (simp add: len)
  with j(3) have big: "(fsub ops (xs ! Suc 2) (xs ! 2), xs ! 2, xs ! Suc 2)
           \<le> (fsub ops (xs ! Suc j) (xs ! j), xs ! j, xs ! Suc j)" by blast
  have j5: "j = 0 \<or> j = 1 \<or> j = 2 \<or> j = 3 \<or> j = 4" using j(1) len by arith
  have j2: "j = 2"
    using j5 big a
    by (auto simp: xs numeral_2_eq_2 numeral_3_eq_3 less_eq_prod_def less_prod_def)
  have b: "b = 107" using j(2) a unfolding j2 xs by (simp add: numeral_2_eq_2)
  have "t \<in> set (left_column_words cw b)" if "t \<in> set cw" "x0 t \<le> 14" for t
    using that(1) by (rule left_of_boundary) (use that(2) b in simp)
  with b show "b = 107" "14 < b" "b < 200"
    "\<forall>t\<in>set cw. x0 t \<le> 14 \<longrightarrow> t \<in> set (left_column_words cw b)"
    by simp_all
qed

lemma example_sorted_x0:
  "sort (map x0 (tl example_page)) = [10, 12, 14, 200, 202, 205]"
  by (simp add: example_page_def)

lemma exact_on_example:
  "fsub exact 12 10 = 2 \<and> fsub exact 14 12 = 2 \<and> fsub exact 200 14 = 186
   \<and> fsub exact 202 200 = 2 \<and> fsub exact 205 202 = 3
   \<and> fadd exact 14 200 = 214 \<and> fdiv exact 214 2 = 107"
  by (simp add: exact_def)

text \<open>
  The two clusters of the example: the boundary, 107, lies strictly between 14 and 200, the
  words of the first cluster are left words, and a single retained word gives the midpoint
  of the page.
\<close>

theorem column_boundary_rule_witness:
  "sort (map x0 (tl example_page)) = [10, 12, 14, 200, 202, 205]
   \<and> column_boundary exact (tl example_page) 600 = 107
   \<and> 14 < column_boundary exact (tl example_page) 600
   \<and> column_boundary exact (tl example_page) 600 < 200
   \<and> \<lparr>wtext = ''a'', x0 = 10, wtop = 20\<rparr>
       \<in> set (left_column_words (tl example_page) (column_boundary exact (tl example_page) 600))
   \<and> \<lparr>wtext = ''b'', x0 = 12, wtop = 30\<rparr>
       \<in> set (left_column_words (tl example_page) (column_boundary exact (tl example_page) 600))
   \<and> \<lparr>wtext = ''c'', x0 = 14, wtop = 10\<rparr>
       \<in> set (left_column_words (tl example_page) (column_boundary exact (tl example_page) 600))
   \<and> length [\<lparr>wtext = ''a'', x0 = 10, wtop = 20\<rparr>] < 2
   \<and> column_boundary exact [\<lparr>wtext = ''a'', x0 = 10, wtop = 20\<rparr>] 600 = 300"
proof -
  note t = column_boundary_rule [OF example_sorted_x0 [symmetric] refl, of exact 600,
      THEN conjunct2, THEN conjunct2, rule_format,
      OF conjI [OF refl exact_on_example]]
  have left: "t \<in> set (left_column_words (tl example_page)
                         (column_boundary exact (tl example_page) 600))"
    if "t \<in> set (tl example_page)" "x0 t \<le> 14" for t
    using t that by blast
  have a: "\<lparr>wtext = ''a'', x0 = 10, wtop = 20\<rparr>
       \<in> set (left_column_words (tl example_page) (column_boundary exact (tl example_page) 600))"
    by (rule left) (simp_all add: example_page_def)
  have b: "\<lparr>wtext = ''b'', x0 = 12, wtop = 30\<rparr>
       \<in> set (left_column_words (tl example_page) (column_boundary exact (tl example_page) 600))"
    by (rule left) (simp_all add: example_page_def)
  have c: "\<lparr>wtext = ''c'', x0 = 14, wtop = 10\<rparr>
       \<in> set (left_column_words (tl example_page) (column_boundary exact (tl example_page) 600))"
    by (rule left) (simp_all add: example_page_def)
  have one: "length [\<lparr>wtext = ''a'', x0 = 10, wtop = 20\<rparr>] < 2" by simp
  have mid: "column_boundary exact [\<lparr>wtext = ''a'', x0 = 10, wtop = 20\<rparr>] 600 = 300"
    using column_boundary_rule [OF refl refl, of "[\<lparr>wtext = ''a'', x0 = 10, wtop = 20\<rparr>]" exact 600]
    by (simp add: exact_def)
  from example_sorted_x0 t a b c one mid show ?thesis by (intro conjI) blast+
qed

text \<open>
  C8 as stated fails: two retained words that share one \<open>x0\<close> (one distinct position) on
  a page of width 600 give the boundary 50, not the midpoint 300. The floats compute
  \<open>50 - 50\<close>, \<open>50 + 50\<close>, \<open>100 / 2\<close>, \<open>0 + 5\<close> and \<open>600 / 2\<close> without rounding.
\<close>

theorem column_boundary_shared_x0_counterexample:
  "content_words exact [\<lparr>wtext = ''TITLE'', x0 = 50, wtop = 0\<rparr>,
                  \<lparr>wtext = ''a'', x0 = 50, wtop = 20\<rparr>,
                  \<lparr>wtext = ''b'', x0 = 50, wtop = 30\<rparr>]
     = [\<lparr>wtext = ''a'', x0 = 50, wtop = 20\<rparr>, \<lparr>wtext = ''b'', x0 = 50, wtop = 30\<rparr>]
   \<and> card (set (map x0 [\<lparr>wtext = ''a'', x0 = 50, wtop = 20\<rparr>, \<lparr>wtext = ''b'', x0 = 50, wtop = 30\<rparr>])) < 2
   \<and> column_boundary exact [\<lparr>wtext = ''a'', x0 = 50, wtop = 20\<rparr>, \<lparr>wtext = ''b'', x0 = 50, wtop = 30\<rparr>] 600 = 50
   \<and> column_boundary exact [\<lparr>wtext = ''a'', x0 = 50, wtop = 20\<rparr>, \<lparr>wtext = ''b'', x0 = 50, wtop = 30\<rparr>] 600
       \<noteq> fdiv exact 600 2"
  by (simp add: content_words_def column_boundary_def gaps_def exact_def)


section \<open>Properties of the PageAggregator\<close>

lemma page_loop_failure:
  assumes "i < n" "p + int i < int (length pages)"
    "pages_index pages (p + int i) = Inr pg" "extract_words pg = None"
  shows "\<exists>e. page_loop ops pages p n acc = Inl e"
  using assms
proof (induction n arbitrary: p i acc)
  case 0
  then show ?case by simp
next
  case (Suc n)
  have lt: "\<not> p \<ge> int (length pages)" using Suc.prems(2) by linarith
  show ?case
  proof (cases "pages_index pages p")
    case (Inl e)
    then show ?thesis using lt by simp
  next
    case (Inr page)
    show ?thesis
    proof (cases "extract_words page")
      case None
      then show ?thesis using lt Inr by simp
    next
      case (Some ws)
      have "i \<noteq> 0"
      proof
        assume "i = 0"
        then have "pg = page" using Suc.prems(3) Inr by simp
        then show False using Some Suc.prems(4) by simp
      qed
      then obtain i' where i': "i = Suc i'" by (cases i) auto
      have eq: "p + 1 + int i' = p + int i" by (simp add: i')
      have "\<exists>e. page_loop ops pages (p + 1) n acc' = Inl e" for acc'
      proof (rule Suc.IH [of i' "p + 1"])
        show "i' < n" using Suc.prems(1) i' by simp
        show "p + 1 + int i' < int (length pages)" unfolding eq by (rule Suc.prems(2))
        show "pages_index pages (p + 1 + int i') = Inr pg" unfolding eq by (rule Suc.prems(3))
        show "extract_words pg = None" by (rule Suc.prems(4))
      qed
      then show ?thesis using lt Inr Some by (simp add: Let_def)
    qed
  qed
qed

lemma str_nat_digit: "n < 10 \<Longrightarrow> str_nat n = [''0123456789'' ! n]"
  by (simp add: str_nat.simps)

lemma one_word_page:
  "extract_text_in_columns exact [\<lparr>wtext = t, x0 = 1, wtop = 10\<rparr>] 600 = t @ [CHR 0x0A, CHR 0x0A]"
  by (simp add: extract_text_in_columns_def content_words_def column_boundary_def gaps_def
      left_column_words_def right_column_words_def exact_def)

lemma no_words_page: "extract_text_in_columns ops [] w = []"
  by (simp add: extract_text_in_columns_def)

text \<open>
  C4, as the code has it. The \<open>try\<close> block encloses the whole page loop. Let the word
  extraction raise for the page of an iteration \<open>i\<close> of the loop (\<open>i\<close> below \<open>num_pages\<close>,
  the index \<open>start_page - 1 + i\<close> below the number of pages, so that the loop does not stop
  before it, and the page the one that \<open>pdf.pages\<close> gives for the index, which counts from
  the end when it is negative). Then the aggregation returns the empty string, as it does
  when the document cannot be opened: the text of the pages before the failing one is
  discarded and the pages after it are not read. In both cases \<open>process\<close> ends with
  \<open>Failed to extract text from PDF\<close>, with nothing parsed.
\<close>

theorem page_failure_aborts:
  assumes "i < nat num_pages"
    and "start_page - 1 + int i < int (length pages)"
    and "pages_index pages (start_page - 1 + int i) = Inr pg"
    and "extract_words pg = None"
  shows "extract_text_from_pdf ops (Some pages) start_page num_pages = []
       \<and> extract_text_from_pdf ops None start_page num_pages = []
       \<and> process ops (Some pages) start_page num_pages st = Failed_to_extract_text
       \<and> process ops None start_page num_pages st = Failed_to_extract_text"
proof -
  from page_loop_failure [OF assms, of ops "[]"]
  have 1: "extract_text_from_pdf ops (Some pages) start_page num_pages = []"
    by (auto simp: extract_text_from_pdf_def Let_def)
  have 2: "extract_text_from_pdf ops None start_page num_pages = []"
    by (simp add: extract_text_from_pdf_def)
  from 1 2 show ?thesis by (simp add: process_def)
qed

text \<open>
  A document of three pages whose second page is unreadable, read from page 1, and read
  from \<open>start_page = 0\<close>, where the first index is \<open>-1\<close> and the loop starts with the last
  page.
\<close>

definition three_pages :: "page list" where
  "three_pages =
     [\<lparr>extract_words = Some [\<lparr>wtext = ''[1]'', x0 = 1, wtop = 10\<rparr>], width = 600\<rparr>,
      \<lparr>extract_words = None, width = 600\<rparr>,
      \<lparr>extract_words = Some [\<lparr>wtext = ''[2]'', x0 = 1, wtop = 10\<rparr>], width = 600\<rparr>]"

theorem page_failure_aborts_witness:
  "(1::nat) < nat 3 \<and> 1 - 1 + int 1 < int (length three_pages)
   \<and> pages_index three_pages (1 - 1 + int 1) = Inr \<lparr>extract_words = None, width = 600\<rparr>
   \<and> extract_words \<lparr>extract_words = None, width = 600\<rparr> = None
   \<and> extract_text_from_pdf exact (Some three_pages) 1 3 = []
   \<and> process exact (Some three_pages) 1 3 init = Failed_to_extract_text
   \<and> pages_index three_pages (0 - 1 + int 2) = Inr \<lparr>extract_words = None, width = 600\<rparr>
   \<and> extract_text_from_pdf exact (Some three_pages) 0 3 = []
   \<and> process exact (Some three_pages) 0 3 init = Failed_to_extract_text"
proof -
  have 1: "(1::nat) < nat 3" by simp
  have 2: "1 - 1 + int 1 < int (length three_pages)" by (simp add: three_pages_def)
  have 3: "pages_index three_pages (1 - 1 + int 1) = Inr \<lparr>extract_words = None, width = 600\<rparr>"
    by (simp add: three_pages_def pages_index_def)
  have 4: "extract_words \<lparr>extract_words = None, width = 600\<rparr> = None" by simp
  note a = page_failure_aborts [OF 1 2 3 4, of exact init]
  have 5: "(2::nat) < nat 3" by simp
  have 6: "0 - 1 + int 2 < int (length three_pages)" by (simp add: three_pages_def)
  have 7: "pages_index three_pages (0 - 1 + int 2) = Inr \<lparr>extract_words = None, width = 600\<rparr>"
    by (simp add: three_pages_def pages_index_def)
  note b = page_failure_aborts [OF 5 6 7 4, of exact init]
  from 1 2 3 4 7 a b show ?thesis by (intro conjI) blast+
qed

text \<open>
  C4 as stated fails: with the second of three pages unreadable the result is empty, while
  an empty second page leaves the text of pages 1 and 3.
\<close>

theorem page_failure_counterexample:
  "extract_text_from_pdf exact
     (Some [\<lparr>extract_words = Some [\<lparr>wtext = ''[1]'', x0 = 1, wtop = 10\<rparr>], width = 600\<rparr>,
            \<lparr>extract_words = None, width = 600\<rparr>,
            \<lparr>extract_words = Some [\<lparr>wtext = ''[2]'', x0 = 1, wtop = 10\<rparr>], width = 600\<rparr>]) 1 3 = []
   \<and> extract_text_from_pdf exact
     (Some [\<lparr>extract_words = Some [\<lparr>wtext = ''[1]'', x0 = 1, wtop = 10\<rparr>], width = 600\<rparr>,
            \<lparr>extract_words = Some [], width = 600\<rparr>,
            \<lparr>extract_words = Some [\<lparr>wtext = ''[2]'', x0 = 1, wtop = 10\<rparr>], width = 600\<rparr>]) 1 3
     = [CHR 0x0A] @ ''---PAGE_1---'' @ [CHR 0x0A] @ ''[1]'' @ [CHR 0x0A, CHR 0x0A, CHR 0x0A]
       @ ''---PAGE_3---'' @ [CHR 0x0A] @ ''[2]'' @ [CHR 0x0A, CHR 0x0A]"
  by (simp add: extract_text_from_pdf_def numeral_3_eq_3 pages_index_def one_word_page
      str_int_def str_nat_digit Let_def no_words_page)

section \<open>Notions used in the statements\<close>

text \<open>
  The test that decides between a new entry and a reference: the condition of the source's
  \<open>if capital_count >= 2 and len(first_word) > 2\<close> under its guard \<open>if words\<close>.
\<close>

definition starts_entry :: "rmatch \<Rightarrow> bool" where
  "starts_entry m =
     (case split (strip (group2 m)) of
        [] \<Rightarrow> False
      | first_word # _ \<Rightarrow> length (filter isupper first_word) \<ge> 2 \<and> length first_word > 2)"


text \<open>
  The states the parser reaches: the dictionary has one entry per key, every entry refers
  to an object of the store that carries the key as its id, and \<open>current_scientist\<close>
  refers to an object of the store.
\<close>

definition wf_extractor :: "extractor \<Rightarrow> bool" where
  "wf_extractor st \<longleftrightarrow>
     distinct (map fst (scientists st))
   \<and> (\<forall>(k, r) \<in> set (scientists st). r < length (heap st) \<and> sci_id (heap st ! r) = k)
   \<and> (\<forall>r. current_scientist st = Some r \<longrightarrow> r < length (heap st))"


text \<open>
  The object at \<open>r\<close> is stored under the key \<open>k\<close> and is not the current one, and the
  current one has another id.
\<close>

definition kept :: "nat \<Rightarrow> int \<Rightarrow> scientist \<Rightarrow> extractor \<Rightarrow> bool" where
  "kept r k obj st \<longleftrightarrow>
     wf_extractor st \<and> r < length (heap st) \<and> heap st ! r = obj
   \<and> map_of (scientists st) k = Some r
   \<and> (\<forall>r'. current_scientist st = Some r' \<longrightarrow> r' \<noteq> r \<and> sci_id (heap st ! r') \<noteq> k)"


section \<open>What a step of the parser does when it does not raise\<close>

text \<open>
  The proofs below follow the parser through the steps that return. These two functions
  give the state after such a step, for the page number \<open>pn\<close> and the id \<open>i\<close> that the
  conversions have returned; \<open>save_current_Inr\<close> and \<open>process_match_Inr\<close> show that a
  step of the parser that returns has this state.
\<close>

definition save_as :: "int \<Rightarrow> extractor \<Rightarrow> extractor" where
  "save_as pn st =
     (case current_scientist st of
        None \<Rightarrow> st
      | Some r \<Rightarrow>
          (let biography1 = strip (current_biography st);
               biography2 = strip (sub_whitespace biography1);
               obj = (heap st ! r)\<lparr>page_number := pn, biography := biography2\<rparr>
           in st\<lparr>heap := (heap st)[r := obj],
                 scientists := AList.update (sci_id obj) r (scientists st)\<rparr>))"

definition new_scientist :: "int \<Rightarrow> rmatch \<Rightarrow> scientist" where
  "new_scientist i m = \<lparr>sci_id = i, name = hd (split (strip (group2 m))),
                         biography = [], page_number = 0, connections = []\<rparr>"

definition match_effect :: "int \<Rightarrow> int \<Rightarrow> extractor \<Rightarrow> rmatch \<Rightarrow> extractor" where
  "match_effect pn i st m =
     (let text_after_bracket = strip (group2 m);
          words = split text_after_bracket
      in case words of
           first_word # rest \<Rightarrow>
             (let capital_count = length (filter isupper first_word);
                  st1 = save_as pn st
              in if capital_count \<ge> 2 \<and> length first_word > 2
                 then st1\<lparr>heap := heap st1 @ [\<lparr>sci_id = i, name = first_word,
                                                biography = [], page_number = 0,
                                                connections = []\<rparr>],
                          current_scientist := Some (length (heap st1)),
                          current_biography := (if length words > 1 then join '' '' rest else [])\<rparr>
                 else
                   (case current_scientist st1 of
                      Some r \<Rightarrow>
                        st1\<lparr>heap := (heap st1)[r := connections_add i (heap st1 ! r)],
                            current_biography := current_biography st1 @ '' ['' @ str_int i
                                                   @ ''] '' @ text_after_bracket\<rparr>
                    | None \<Rightarrow> st1))
         | [] \<Rightarrow>
             (case current_scientist st of
                Some r \<Rightarrow>
                  st\<lparr>heap := (heap st)[r := connections_add i (heap st ! r)],
                     current_biography := current_biography st @ '' ['' @ str_int i @ '']''\<rparr>
              | None \<Rightarrow> st))"


section \<open>Properties of the EntryParser\<close>

subsection \<open>The steps that return\<close>

lemma page_of_None: "search_page p = None \<Longrightarrow> page_of p = Inr 0"
  by (simp add: page_of_def)

lemma save_current_Inr:
  assumes "save_current p st = Inr st'"
  shows "\<exists>pn. st' = save_as pn st \<and> (current_scientist st \<noteq> None \<longrightarrow> page_of p = Inr pn)"
proof (cases "current_scientist st")
  case None
  then have "st' = save_as 0 st" using assms by (simp add: save_current_def save_as_def)
  then show ?thesis using None by blast
next
  case (Some r)
  show ?thesis
  proof (cases "page_of p")
    case (Inl e)
    then show ?thesis using assms Some by (simp add: save_current_def Let_def)
  next
    case (Inr pn)
    then have "st' = save_as pn st"
      using assms Some by (simp add: save_current_def save_as_def Let_def)
    then show ?thesis using Inr by blast
  qed
qed

lemma save_current_returns:
  assumes "current_scientist st \<noteq> None \<longrightarrow> page_of p = Inr pn"
  shows "save_current p st = Inr (save_as pn st)"
  using assms by (auto simp: save_current_def save_as_def Let_def split: option.splits)

lemma process_match_Inr:
  assumes "process_match text st m = Inr st'"
  shows "\<exists>i pn. py_int (group1 m) = Inr i \<and> st' = match_effect pn i st m
           \<and> (split (strip (group2 m)) \<noteq> [] \<and> current_scientist st \<noteq> None
                \<longrightarrow> page_of (take (start m) text) = Inr pn)"
proof (cases "py_int (group1 m)")
  case (Inl e)
  then show ?thesis using assms by (simp add: process_match_def)
next
  case (Inr i)
  show ?thesis
  proof (cases "split (strip (group2 m))")
    case Nil
    then have "st' = match_effect 0 i st m"
      using assms Inr
      by (auto simp: process_match_def match_effect_def Let_def split: option.splits)
    then show ?thesis using Inr Nil by blast
  next
    case (Cons w ws)
    show ?thesis
    proof (cases "save_current (take (start m) text) st")
      case (Inl e)
      then show ?thesis using assms Inr Cons by (simp add: process_match_def Let_def)
    next
      case save: (Inr s)
      from save_current_Inr [OF save] obtain pn where
        s: "s = save_as pn st"
        and pn: "current_scientist st \<noteq> None \<longrightarrow> page_of (take (start m) text) = Inr pn"
        by blast
      have "process_match text st m = Inr (match_effect pn i st m)"
        using Inr Cons save unfolding s
        by (cases "current_scientist (save_as pn st)")
           (simp_all add: process_match_def match_effect_def Let_def)
      then have "st' = match_effect pn i st m" using assms by simp
      then show ?thesis using Inr pn by blast
    qed
  qed
qed

lemma process_match_returns:
  assumes "py_int (group1 m) = Inr i"
    and "split (strip (group2 m)) \<noteq> [] \<and> current_scientist st \<noteq> None
           \<longrightarrow> page_of (take (start m) text) = Inr pn"
  shows "process_match text st m = Inr (match_effect pn i st m)"
proof (cases "split (strip (group2 m))")
  case Nil
  then show ?thesis using assms(1)
    by (auto simp: process_match_def match_effect_def Let_def split: option.splits)
next
  case (Cons w ws)
  then have "current_scientist st \<noteq> None \<longrightarrow> page_of (take (start m) text) = Inr pn"
    using assms(2) by simp
  then have "save_current (take (start m) text) st = Inr (save_as pn st)"
    by (rule save_current_returns)
  then show ?thesis
    using assms(1) Cons
    by (cases "current_scientist (save_as pn st)")
       (simp_all add: process_match_def match_effect_def Let_def)
qed

lemma matches_loop_append:
  "matches_loop text st (ms1 @ ms2) =
     (case matches_loop text st ms1 of Inl e \<Rightarrow> Inl e | Inr s \<Rightarrow> matches_loop text s ms2)"
  by (induction ms1 arbitrary: st) (auto split: sum.splits)

lemma matches_loop_invariant:
  assumes "matches_loop text st ms = Inr st'" and "P st"
    and "\<And>s m i pn. P s \<Longrightarrow> m \<in> set ms \<Longrightarrow> py_int (group1 m) = Inr i
            \<Longrightarrow> (split (strip (group2 m)) \<noteq> [] \<and> current_scientist s \<noteq> None
                   \<longrightarrow> page_of (take (start m) text) = Inr pn)
            \<Longrightarrow> P (match_effect pn i s m)"
  shows "P st'"
  using assms
proof (induction ms arbitrary: st)
  case Nil
  then show ?case by simp
next
  case (Cons m ms)
  from Cons.prems(1) obtain s where s: "process_match text st m = Inr s"
    and rest: "matches_loop text s ms = Inr st'"
    by (auto split: sum.splits)
  from process_match_Inr [OF s] obtain i pn where
    i: "py_int (group1 m) = Inr i" and e: "s = match_effect pn i st m"
    and pn: "split (strip (group2 m)) \<noteq> [] \<and> current_scientist st \<noteq> None
                \<longrightarrow> page_of (take (start m) text) = Inr pn"
    by blast
  have "P s" unfolding e using Cons.prems(2) _ i pn by (rule Cons.prems(3)) simp
  with rest show ?case
  proof (rule Cons.IH)
    fix s' m' i' pn'
    assume "P s'" "m' \<in> set ms" "py_int (group1 m') = Inr i'"
      "split (strip (group2 m')) \<noteq> [] \<and> current_scientist s' \<noteq> None
         \<longrightarrow> page_of (take (start m') text) = Inr pn'"
    then show "P (match_effect pn' i' s' m')" by (intro Cons.prems(3)) auto
  qed
qed

lemma parse_Inr:
  assumes "parse_scientist_entries text st = Inr p"
  shows "\<exists>s1 pn. matches_loop text (st\<lparr>current_scientist := None, current_biography := []\<rparr>)
                    (finditer 0 (clean_text text)) = Inr s1
           \<and> p = save_as pn s1
           \<and> (current_scientist s1 \<noteq> None \<longrightarrow>
                page_of (slice_to text (int (length text) - int (length (current_biography s1))))
                  = Inr pn)"
proof (cases "matches_loop text (st\<lparr>current_scientist := None, current_biography := []\<rparr>)
                    (finditer 0 (clean_text text))")
  case (Inl e)
  then show ?thesis using assms by (simp add: parse_scientist_entries_def Let_def)
next
  case (Inr s1)
  then have "save_current
      (slice_to text (int (length text) - int (length (current_biography s1)))) s1 = Inr p"
    using assms by (simp add: parse_scientist_entries_def Let_def)
  from save_current_Inr [OF this] Inr show ?thesis by blast
qed

subsection \<open>Saving\<close>

lemma save_as_None [simp]:
  "current_scientist st = None \<Longrightarrow> save_as pn st = st"
  by (simp add: save_as_def)

lemma save_as_fields [simp]:
  "current_scientist (save_as pn st) = current_scientist st"
  "current_biography (save_as pn st) = current_biography st"
  "relationships (save_as pn st) = relationships st"
  "length (heap (save_as pn st)) = length (heap st)"
  by (simp_all add: save_as_def Let_def split: option.splits)

lemma save_as_heap_other:
  "current_scientist st \<noteq> Some x \<Longrightarrow> heap (save_as pn st) ! x = heap st ! x"
  by (auto simp: save_as_def Let_def split: option.splits)

lemma save_as_heap_current:
  "current_scientist st = Some r \<Longrightarrow> r < length (heap st) \<Longrightarrow>
   heap (save_as pn st) ! r
     = (heap st ! r)\<lparr>page_number := pn,
                      biography := strip (sub_whitespace (strip (current_biography st)))\<rparr>"
  by (simp add: save_as_def Let_def)

lemma save_as_sci_id:
  "x < length (heap st) \<Longrightarrow> sci_id (heap (save_as pn st) ! x) = sci_id (heap st ! x)"
  by (cases "current_scientist st = Some x")
     (auto simp: save_as_def Let_def split: option.splits)

lemma save_as_name:
  "x < length (heap st) \<Longrightarrow> name (heap (save_as pn st) ! x) = name (heap st ! x)"
  by (cases "current_scientist st = Some x")
     (auto simp: save_as_def Let_def split: option.splits)

lemma save_as_connections:
  "x < length (heap st) \<Longrightarrow> connections (heap (save_as pn st) ! x) = connections (heap st ! x)"
  by (cases "current_scientist st = Some x")
     (auto simp: save_as_def Let_def split: option.splits)

lemma save_as_scientists:
  "current_scientist st = Some r \<Longrightarrow>
   scientists (save_as pn st) = AList.update (sci_id (heap st ! r)) r (scientists st)"
  by (simp add: save_as_def Let_def)

lemma save_as_map_of:
  "current_scientist st = Some r \<Longrightarrow>
   map_of (scientists (save_as pn st)) = (map_of (scientists st))(sci_id (heap st ! r) \<mapsto> r)"
  by (simp add: save_as_scientists update_conv')

subsection \<open>The three cases of a match\<close>

lemma match_effect_empty:
  assumes "split (strip (group2 m)) = []"
  shows "match_effect pn i st m =
     (case current_scientist st of
        Some r \<Rightarrow>
          st\<lparr>heap := (heap st)[r := connections_add (i) (heap st ! r)],
             current_biography := current_biography st @ '' ['' @ str_int (i) @ '']''\<rparr>
      | None \<Rightarrow> st)"
  using assms by (simp add: match_effect_def Let_def)

lemma match_effect_entry:
  assumes "starts_entry m"
  shows "match_effect pn i st m =
     (save_as pn st)
       \<lparr>heap := heap (save_as pn st) @ [new_scientist i m],
        current_scientist := Some (length (heap st)),
        current_biography := join '' '' (tl (split (strip (group2 m))))\<rparr>"
proof -
  from assms obtain w ws where s: "split (strip (group2 m)) = w # ws"
    and c: "length (filter isupper w) \<ge> 2" "length w > 2"
    by (auto simp: starts_entry_def split: list.splits)
  have "(if length (w # ws) > 1 then join '' '' ws else []) = join '' '' ws"
    by (cases ws) auto
  then show ?thesis using s c by (simp add: match_effect_def Let_def new_scientist_def)
qed

lemma match_effect_reference:
  assumes "split (strip (group2 m)) \<noteq> []" "\<not> starts_entry m"
  shows "match_effect pn i st m =
     (let st1 = save_as pn st
      in case current_scientist st of
           Some r \<Rightarrow>
             st1\<lparr>heap := (heap st1)[r := connections_add (i) (heap st1 ! r)],
                 current_biography := current_biography st @ '' ['' @ str_int (i)
                                                   @ ''] '' @ strip (group2 m)\<rparr>
         | None \<Rightarrow> st)"
proof -
  from assms obtain w ws where s: "split (strip (group2 m)) = w # ws"
    by (cases "split (strip (group2 m))") auto
  with assms(2) have c: "\<not> (length (filter isupper w) \<ge> 2 \<and> length w > 2)"
    by (simp add: starts_entry_def)
  show ?thesis using s c by (auto simp add: match_effect_def Let_def split: option.splits)
qed
subsection \<open>Well-formed states\<close>

lemma set_alist_update:
  "p \<in> set (AList.update k v al) \<Longrightarrow> p = (k, v) \<or> p \<in> set al"
  by (induction al) (auto split: if_splits)

lemma wf_init: "wf_extractor init"
  by (simp add: wf_extractor_def init_def)

lemma wf_currentD: "wf_extractor st \<Longrightarrow> current_scientist st = Some r \<Longrightarrow> r < length (heap st)"
  by (simp add: wf_extractor_def)

lemma wf_save_as:
  assumes "wf_extractor st"
  shows "wf_extractor (save_as pn st)"
proof (cases "current_scientist st")
  case None
  then show ?thesis using assms by simp
next
  case (Some r)
  have r: "r < length (heap st)" using assms Some by (rule wf_currentD)
  let ?st = "save_as pn st"
  have d: "distinct (map fst (scientists ?st))"
    using assms by (simp add: save_as_scientists [OF Some] distinct_update wf_extractor_def)
  have e: "r' < length (heap ?st) \<and> sci_id (heap ?st ! r') = k'"
    if "(k', r') \<in> set (scientists ?st)" for k' r'
  proof -
    from that have "(k', r') = (sci_id (heap st ! r), r) \<or> (k', r') \<in> set (scientists st)"
      unfolding save_as_scientists [OF Some] by (rule set_alist_update)
    then have "r' < length (heap st) \<and> sci_id (heap st ! r') = k'"
      using assms r by (auto simp: wf_extractor_def)
    then show ?thesis by (simp add: save_as_sci_id)
  qed
  have c: "\<forall>x. current_scientist ?st = Some x \<longrightarrow> x < length (heap ?st)"
    using Some r by simp
  from d e c show ?thesis unfolding wf_extractor_def by blast
qed

lemma wf_update_current:
  assumes "wf_extractor st" "current_scientist st = Some r" "sci_id (f (heap st ! r)) = sci_id (heap st ! r)"
  shows "wf_extractor (st\<lparr>heap := (heap st)[r := f (heap st ! r)], current_biography := b\<rparr>)"
proof -
  have "sci_id ((heap st)[r := f (heap st ! r)] ! x) = sci_id (heap st ! x)" if "x < length (heap st)" for x
    using that assms(3) by (cases "x = r") auto
  then show ?thesis using assms(1) by (auto simp: wf_extractor_def)
qed

lemma sci_id_connections_add [simp]: "sci_id (connections_add i sc) = sci_id sc"
  "name (connections_add i sc) = name sc" "biography (connections_add i sc) = biography sc"
  "page_number (connections_add i sc) = page_number sc"
  "connections (connections_add i sc) = List.insert i (connections sc)"
  by (simp_all add: connections_add_def)

lemma wf_match_effect:
  assumes "wf_extractor st"
  shows "wf_extractor (match_effect pn i st m)"
proof -
  consider (empty) "split (strip (group2 m)) = []"
    | (entry) "starts_entry m"
    | (reference) "split (strip (group2 m)) \<noteq> []" "\<not> starts_entry m"
    by blast
  then show ?thesis
  proof cases
    case empty
    show ?thesis
    proof (cases "current_scientist st")
      case None
      then show ?thesis using assms by (simp add: match_effect_empty [OF empty])
    next
      case (Some r)
      then show ?thesis
        using wf_update_current [OF assms Some, of "connections_add (i)"]
        by (simp add: match_effect_empty [OF empty])
    qed
  next
    case entry
    let ?s = "save_as pn st"
    have w: "wf_extractor ?s" using assms by (rule wf_save_as)
    show ?thesis
      unfolding match_effect_entry [OF entry]
      using w by (auto simp: wf_extractor_def nth_append)
  next
    case reference
    let ?s = "save_as pn st"
    have w: "wf_extractor ?s" using assms by (rule wf_save_as)
    show ?thesis
    proof (cases "current_scientist st")
      case None
      then show ?thesis using assms by (simp add: match_effect_reference [OF reference])
    next
      case (Some r)
      then have c: "current_scientist ?s = Some r" by simp
      show ?thesis
        using wf_update_current [OF w c, of "connections_add (i)"] Some
        by (simp add: match_effect_reference [OF reference] Let_def)
    qed
  qed
qed


lemma wf_matches_loop:
  assumes "matches_loop text st ms = Inr st'" "wf_extractor st"
  shows "wf_extractor st'"
  using assms by (rule matches_loop_invariant) (rule wf_match_effect)

lemma wf_parse:
  assumes "parse_scientist_entries text st = Inr p" "wf_extractor st"
  shows "wf_extractor p"
proof -
  from parse_Inr [OF assms(1)] obtain s1 pn where
    l: "matches_loop text (st\<lparr>current_scientist := None, current_biography := []\<rparr>)
          (finditer 0 (clean_text text)) = Inr s1"
    and p: "p = save_as pn s1" by blast
  have "wf_extractor (st\<lparr>current_scientist := None, current_biography := []\<rparr>)"
    using assms(2) by (simp add: wf_extractor_def)
  with l have "wf_extractor s1" by (rule wf_matches_loop)
  then show ?thesis unfolding p by (rule wf_save_as)
qed

lemma lookup_Some_iff:
  assumes "wf_extractor st"
  shows "lookup st k = Some e \<longleftrightarrow> (\<exists>r. (k, r) \<in> set (scientists st) \<and> e = heap st ! r)"
  using assms by (auto simp: lookup_def wf_extractor_def)

lemma lookup_in_heap:
  assumes "wf_extractor st" "lookup st k = Some e"
  shows "e \<in> set (heap st) \<and> sci_id e = k"
  using assms by (auto simp: lookup_Some_iff wf_extractor_def)


subsection \<open>Page search on prefixes\<close>

lemma match_literal_append:
  "match_literal l p = Some r \<Longrightarrow> match_literal l (p @ q) = Some (r @ q)"
  by (induction l p rule: match_literal.induct) (auto split: if_splits)

lemma match_digits_append:
  assumes "match_digits p = Some (ds, r)" "r \<noteq> []"
  shows "match_digits (p @ q) = Some (ds, r @ q)"
proof -
  from assms(1) have ds: "ds = takeWhile is_digit p" "r = dropWhile is_digit p" "ds \<noteq> []"
    by (auto simp: match_digits_def Let_def split: if_splits)
  from assms(2) ds(2) obtain x where x: "x \<in> set p" "\<not> is_digit x"
    by (metis dropWhile_eq_Nil_conv)
  then have "takeWhile is_digit (p @ q) = takeWhile is_digit p"
    "dropWhile is_digit (p @ q) = dropWhile is_digit p @ q"
    by (auto simp: takeWhile_append1 dropWhile_append1)
  then show ?thesis using ds by (simp add: match_digits_def Let_def)
qed

lemma match_page_append:
  assumes "match_page p = Some ds"
  shows "match_page (p @ q) = Some ds"
proof -
  from assms obtain r r' r'' where
    1: "match_literal ''---PAGE_'' p = Some r" and
    2: "match_digits r = Some (ds, r')" and
    3: "match_literal ''---'' r' = Some r''"
    by (auto simp: match_page_def split: option.splits)
  from 3 have ne: "r' \<noteq> []" by (cases r') auto
  from match_literal_append [OF 1, of q] match_digits_append [OF 2 ne, of q]
    match_literal_append [OF 3, of q]
  show ?thesis by (simp add: match_page_def)
qed

lemma search_page_append:
  "search_page p \<noteq> None \<Longrightarrow> search_page (p @ q) \<noteq> None"
proof (induction p)
  case Nil
  then show ?case by simp
next
  case (Cons c cs)
  show ?case
  proof (cases "match_page (c # cs)")
    case None
    with Cons.prems have "search_page cs \<noteq> None" by simp
    then have "search_page (cs @ q) \<noteq> None" by (rule Cons.IH)
    then show ?thesis by (auto split: option.splits)
  next
    case (Some ds)
    from match_page_append [OF this, of q] show ?thesis by simp
  qed
qed

lemma search_page_take:
  assumes "search_page s = None"
  shows "search_page (take n s) = None"
proof (rule ccontr)
  assume "search_page (take n s) \<noteq> None"
  then have "search_page (take n s @ drop n s) \<noteq> None" by (rule search_page_append)
  with assms show False by simp
qed

lemma page_of_take: "search_page s = None \<Longrightarrow> page_of (take n s) = Inr 0"
  by (simp add: page_of_def search_page_take)

lemma page_of_slice_to: "search_page s = None \<Longrightarrow> page_of (slice_to s k) = Inr 0"
  by (simp add: slice_to_def page_of_take)

lemma search_page_take_le:
  assumes "search_page (take n s) = None" "j \<le> n"
  shows "search_page (take j s) = None"
proof -
  have "take j s = take j (take n s)" using assms(2) by (simp add: min_def)
  then show ?thesis using search_page_take [OF assms(1), of j] by simp
qed


subsection \<open>The matches before a tag are the matches of the text before it\<close>

lemma match_tag_append:
  assumes "match_tag p = Some (ds, r)"
  shows "match_tag (p @ q) = Some (ds, r @ q)"
proof -
  from assms obtain p' r' where
    p: "p = CHR ''['' # p'" and d: "match_digits p' = Some (ds, r')" and r': "r' = CHR '']'' # r"
    by (auto simp: match_tag_def split: list.splits if_splits option.splits)
  have "r' \<noteq> []" using r' by simp
  from match_digits_append [OF d this, of q] show ?thesis
    by (simp add: match_tag_def p r')
qed

lemma match_tag_decomp:
  assumes "match_tag s = Some (ds, r)"
  shows "\<exists>u. s = u @ r \<and> match_tag u = Some (ds, [])"
proof -
  from assms obtain p' r' where
    p: "s = CHR ''['' # p'" and d: "match_digits p' = Some (ds, r')" and r': "r' = CHR '']'' # r"
    by (auto simp: match_tag_def split: list.splits if_splits option.splits)
  from d have ds: "ds = takeWhile is_digit p'" "r' = dropWhile is_digit p'" "ds \<noteq> []"
    by (auto simp: match_digits_def Let_def split: if_splits)
  then have p': "p' = ds @ r'" by simp
  have nd: "\<not> is_digit (CHR '']'')" by (simp add: is_digit_def)
  have all: "\<forall>x\<in>set ds. is_digit x" using ds(1) by (auto dest: set_takeWhileD)
  have "takeWhile is_digit (ds @ [CHR '']'']) = ds" "dropWhile is_digit (ds @ [CHR '']'']) = [CHR '']'']"
    using all nd by (simp_all add: takeWhile_append2 dropWhile_append2)
  then have "match_tag (CHR ''['' # ds @ [CHR '']'']) = Some (ds, [])"
    using ds(3) by (simp add: match_tag_def match_digits_def Let_def)
  moreover have "s = (CHR ''['' # ds @ [CHR '']'']) @ r" using p p' r' by simp
  ultimately show ?thesis by blast
qed

lemma finditer_Nil: "finditer pos [] = []"
  by (simp add: finditer.simps)

lemma finditer_None:
  assumes "match_tag (c # cs) = None"
  shows "finditer pos (c # cs) = finditer (pos + 1) cs"
  by (subst finditer.simps) (simp only: assms option.case)

lemma finditer_Some:
  assumes "match_tag (c # cs) = Some (ds, r)"
  shows "finditer pos (c # cs) =
     \<lparr>start = pos, group1 = ds, group2 = takeWhile (\<lambda>x. x \<noteq> CHR ''['') r\<rparr>
     # finditer (pos + (length (c # cs) - length (dropWhile (\<lambda>x. x \<noteq> CHR ''['') r)))
         (dropWhile (\<lambda>x. x \<noteq> CHR ''['') r)"
  by (subst finditer.simps) (simp only: assms option.case prod.case Let_def)

lemma finditer_start_ge: "m \<in> set (finditer pos s) \<Longrightarrow> pos \<le> start m"
proof (induction pos s rule: finditer.induct)
  case (1 pos)
  then show ?case by (simp add: finditer_Nil)
next
  case (2 pos c cs)
  show ?case
  proof (cases "match_tag (c # cs)")
    case None
    with 2 show ?thesis by (auto simp: finditer_None)
  next
    case (Some a)
    obtain ds r where a: "a = (ds, r)" by (cases a)
    note S = Some [unfolded a]
    from "2.prems" consider "start m = pos"
      | "m \<in> set (finditer (pos + (length (c # cs) - length (dropWhile (\<lambda>x. x \<noteq> CHR ''['') r)))
         (dropWhile (\<lambda>x. x \<noteq> CHR ''['') r))"
      unfolding finditer_Some [OF S] by auto
    then show ?thesis
    proof cases
      case 1
      then show ?thesis by simp
    next
      case 2
      from "2.IH"(2) [OF Some a [symmetric] refl refl this] show ?thesis by simp
    qed
  qed
qed

lemma finditer_Some_take:
  assumes S: "match_tag (c # cs) = Some (ds, r)"
  defines "rest \<equiv> dropWhile (\<lambda>x. x \<noteq> CHR ''['') r"
    and "g2 \<equiv> takeWhile (\<lambda>x. x \<noteq> CHR ''['') r"
  shows "finditer pos (take ((length (c # cs) - length rest) + n) (c # cs))
       = \<lparr>start = pos, group1 = ds, group2 = g2\<rparr>
         # finditer (pos + (length (c # cs) - length rest)) (take n rest)"
proof -
  from match_tag_decomp [OF S] obtain u where
    u: "c # cs = u @ r" "match_tag u = Some (ds, [])" by blast
  have r: "g2 @ rest = r" unfolding g2_def rest_def by (rule takeWhile_dropWhile_id)
  have whole: "c # cs = (u @ g2) @ rest" unfolding u(1) using r by simp
  have len: "length (c # cs) - length rest = length (u @ g2)"
    unfolding whole by simp
  let ?t = "take n rest"
  have tk: "take ((length (c # cs) - length rest) + n) (c # cs) = (u @ g2) @ ?t"
    unfolding len unfolding whole by simp
  have une: "u \<noteq> []" using u(2) by (auto simp: match_tag_def)
  then obtain c' cs' where ucs: "(u @ g2) @ ?t = c' # cs'" by (cases u) auto
  have mt: "match_tag (c' # cs') = Some (ds, g2 @ ?t)"
    using match_tag_append [OF u(2), of "g2 @ ?t"] unfolding ucs [symmetric] by simp
  have t_hd: "?t = [] \<or> hd ?t = CHR ''[''"
  proof (cases "?t = []")
    case True
    then show ?thesis by simp
  next
    case False
    then have ne: "rest \<noteq> []" by auto
    have "hd rest = CHR ''[''" using hd_dropWhile [of "\<lambda>x. x \<noteq> CHR ''[''" r] ne
      unfolding rest_def by simp
    moreover have "hd ?t = hd rest" using False by (cases n; cases rest) auto
    ultimately show ?thesis by simp
  qed
  have all: "\<forall>x\<in>set g2. x \<noteq> CHR ''[''" unfolding g2_def by (auto dest: set_takeWhileD)
  have t0: "takeWhile (\<lambda>x. x \<noteq> CHR ''['') ?t = []" "dropWhile (\<lambda>x. x \<noteq> CHR ''['') ?t = ?t"
    using t_hd by (cases ?t; auto)+
  have tw: "takeWhile (\<lambda>x. x \<noteq> CHR ''['') (g2 @ ?t) = g2"
    "dropWhile (\<lambda>x. x \<noteq> CHR ''['') (g2 @ ?t) = ?t"
    using all t0 by (simp_all add: takeWhile_append2 dropWhile_append2)
  have l2: "length (c' # cs') - length ?t = length (c # cs) - length rest"
    unfolding ucs [symmetric] len by simp
  show ?thesis
    unfolding tk ucs finditer_Some [OF mt] tw l2 ..
qed

lemma finditer_prefix:
  "finditer pos s = ms1 @ m # ms2 \<Longrightarrow> finditer pos (take (start m - pos) s) = ms1"
proof (induction pos s arbitrary: ms1 rule: finditer.induct)
  case (1 pos)
  then show ?case by (simp add: finditer_Nil)
next
  case (2 pos c cs)
  show ?case
  proof (cases "match_tag (c # cs)")
    case None
    have eq: "finditer (pos + 1) cs = ms1 @ m # ms2"
      using "2.prems" by (simp add: finditer_None [OF None])
    then have "m \<in> set (finditer (pos + 1) cs)" by simp
    then have ge: "pos + 1 \<le> start m" by (rule finditer_start_ge)
    have ih: "finditer (pos + 1) (take (start m - (pos + 1)) cs) = ms1"
      using "2.IH"(1) [OF None eq] .
    have tk: "take (start m - pos) (c # cs) = c # take (start m - (pos + 1)) cs"
    proof -
      have "start m - pos = Suc (start m - (pos + 1))" using ge by simp
      then show ?thesis by (simp only: take_Suc_Cons)
    qed
    have "match_tag (c # take (start m - (pos + 1)) cs) = None"
    proof (rule ccontr)
      assume "match_tag (c # take (start m - (pos + 1)) cs) \<noteq> None"
      then obtain ds r where "match_tag (c # take (start m - (pos + 1)) cs) = Some (ds, r)"
        by auto
      from match_tag_append [OF this, of "drop (start m - (pos + 1)) cs"] None
      show False by simp
    qed
    then show ?thesis unfolding tk using ih by (simp add: finditer_None)
  next
    case (Some a)
    obtain ds r where a: "a = (ds, r)" by (cases a)
    note S = Some [unfolded a]
    define rest where "rest = dropWhile (\<lambda>x. x \<noteq> CHR ''['') r"
    define g2 where "g2 = takeWhile (\<lambda>x. x \<noteq> CHR ''['') r"
    define pos' where "pos' = pos + (length (c # cs) - length rest)"
    define m0 where "m0 = \<lparr>start = pos, group1 = ds, group2 = g2\<rparr>"
    have fi: "finditer pos (c # cs) = m0 # finditer pos' rest"
      unfolding m0_def pos'_def rest_def g2_def by (rule finditer_Some [OF S])
    show ?thesis
    proof (cases ms1)
      case Nil
      then have "m = m0" using "2.prems" fi by simp
      then have "start m = pos" by (simp add: m0_def)
      then show ?thesis using Nil by (simp add: finditer_Nil)
    next
      case (Cons x ms1')
      then have x: "x = m0" and eq: "finditer pos' rest = ms1' @ m # ms2"
        using "2.prems" fi by simp_all
      have ih: "finditer pos' (take (start m - pos') rest) = ms1'"
        using "2.IH"(2) [OF Some a [symmetric] g2_def rest_def eq [unfolded pos'_def]]
        unfolding pos'_def .
      from eq have "m \<in> set (finditer pos' rest)" by simp
      then have ge: "pos' \<le> start m" by (rule finditer_start_ge)
      have "start m - pos = (length (c # cs) - length rest) + (start m - pos')"
        using ge unfolding pos'_def by simp
      then have "finditer pos (take (start m - pos) (c # cs))
          = m0 # finditer pos' (take (start m - pos') rest)"
        using finditer_Some_take [OF S, of pos "start m - pos'"]
        unfolding m0_def pos'_def rest_def g2_def by simp
      then show ?thesis using ih x Cons by simp
    qed
  qed
qed

subsection \<open>A saved scientist is left alone once another one is current\<close>

lemma kept_save_as:
  assumes "kept r k obj st"
  shows "kept r k obj (save_as pn st)"
proof (cases "current_scientist st")
  case None
  then show ?thesis using assms by simp
next
  case (Some r')
  from assms Some have r': "r' \<noteq> r" "sci_id (heap st ! r') \<noteq> k" "r' < length (heap st)"
    and r: "r < length (heap st)" "heap st ! r = obj" "map_of (scientists st) k = Some r"
    and wf: "wf_extractor st"
    by (auto simp: kept_def wf_extractor_def)
  have 1: "heap (save_as pn st) ! r = obj"
    using r' r Some by (simp add: save_as_heap_other)
  have 2: "map_of (scientists (save_as pn st)) k = Some r"
    using r' r by (simp add: save_as_map_of [OF Some])
  have 3: "sci_id (heap (save_as pn st) ! r') \<noteq> k"
    using r' by (simp add: save_as_sci_id)
  from 1 2 3 r r' Some wf_save_as [OF wf, of pn] show ?thesis
    by (simp add: kept_def)
qed

lemma kept_update_current:
  assumes "kept r k obj st" "current_scientist st = Some r'"
  shows "kept r k obj (st\<lparr>heap := (heap st)[r' := connections_add i (heap st ! r')],
                           current_biography := b\<rparr>)"
proof -
  from assms have r': "r' \<noteq> r" "sci_id (heap st ! r') \<noteq> k" "r' < length (heap st)"
    and wf: "wf_extractor st"
    by (auto simp: kept_def wf_extractor_def)
  have "wf_extractor (st\<lparr>heap := (heap st)[r' := connections_add i (heap st ! r')],
                           current_biography := b\<rparr>)"
    using wf assms(2) by (rule wf_update_current) simp
  then show ?thesis using assms r' by (simp add: kept_def)
qed

lemma kept_match_effect:
  assumes "kept r k obj st" "starts_entry m \<longrightarrow> i \<noteq> k"
  shows "kept r k obj (match_effect pn i st m)"
proof -
  let ?s = "save_as pn st"
  have s: "kept r k obj ?s" using assms(1) by (rule kept_save_as)
  consider (empty) "split (strip (group2 m)) = []"
    | (entry) "starts_entry m"
    | (reference) "split (strip (group2 m)) \<noteq> []" "\<not> starts_entry m"
    by blast
  then show ?thesis
  proof cases
    case empty
    show ?thesis
    proof (cases "current_scientist st")
      case None
      then show ?thesis using assms by (simp add: match_effect_empty [OF empty])
    next
      case (Some r')
      from kept_update_current [OF assms(1) Some] Some show ?thesis
        by (simp add: match_effect_empty [OF empty])
    qed
  next
    case entry
    have wf: "wf_extractor (match_effect pn i st m)"
      using assms(1) by (intro wf_match_effect) (simp add: kept_def)
    have id: "i \<noteq> k" using assms(2) entry by simp
    from s have "r < length (heap st)" "heap ?s ! r = obj" "map_of (scientists ?s) k = Some r"
      by (simp_all add: kept_def)
    then show ?thesis
      using wf id unfolding kept_def match_effect_entry [OF entry]
      by (simp add: nth_append new_scientist_def)
  next
    case reference
    show ?thesis
    proof (cases "current_scientist st")
      case None
      then show ?thesis using assms by (simp add: match_effect_reference [OF reference])
    next
      case (Some r')
      then have c: "current_scientist ?s = Some r'" by simp
      from kept_update_current [OF s c] Some show ?thesis
        by (simp add: match_effect_reference [OF reference] Let_def)
    qed
  qed
qed

lemma kept_matches_loop:
  assumes "matches_loop text st ms = Inr st'" and "kept r k obj st"
    and "\<forall>m\<in>set ms. starts_entry m \<longrightarrow> py_int (group1 m) \<noteq> Inr k"
  shows "kept r k obj st'"
  using assms(1,2)
proof (rule matches_loop_invariant)
  fix s m i pn
  assume "kept r k obj s" "m \<in> set ms" "py_int (group1 m) = Inr i"
  then show "kept r k obj (match_effect pn i s m)"
    using assms(3) by (intro kept_match_effect) auto
qed

lemma kept_lookup: "kept r k obj st \<Longrightarrow> lookup st k = Some obj"
  by (simp add: kept_def lookup_def)

lemma kept_after_entry:
  assumes "wf_extractor st" "current_scientist st = Some r" "starts_entry m"
    "i \<noteq> sci_id (heap st ! r)"
  shows "kept r (sci_id (heap st ! r))
           ((heap st ! r)\<lparr>page_number := pn,
                           biography := strip (sub_whitespace (strip (current_biography st)))\<rparr>)
           (match_effect pn i st m)"
proof -
  let ?s = "save_as pn st"
  have r: "r < length (heap st)" using assms(1,2) by (rule wf_currentD)
  have wf: "wf_extractor (match_effect pn i st m)" using assms(1) by (rule wf_match_effect)
  have 1: "heap ?s ! r = (heap st ! r)\<lparr>page_number := pn,
                           biography := strip (sub_whitespace (strip (current_biography st)))\<rparr>"
    using assms(2) r by (rule save_as_heap_current)
  have 2: "map_of (scientists ?s) (sci_id (heap st ! r)) = Some r"
    by (simp add: save_as_map_of [OF assms(2)])
  show ?thesis
    using wf r 1 2 assms(4) unfolding kept_def match_effect_entry [OF assms(3)]
    by (simp add: nth_append new_scientist_def)
qed

lemma init_reset:
  "init\<lparr>current_scientist := None, current_biography := []\<rparr> = init"
  by (simp add: init_def)


subsection \<open>Properties of every object of the store\<close>

lemma heap_all_update:
  assumes "\<forall>sc\<in>set h. P sc" "r < length h \<Longrightarrow> P x"
  shows "\<forall>sc\<in>set (h[r := x]). P sc"
proof (cases "r < length h")
  case True
  have "set (h[r := x]) \<subseteq> insert x (set h)" by (rule set_update_subset_insert)
  then show ?thesis using assms True by auto
next
  case False
  then have "h[r := x] = h" by (simp add: list_update_beyond)
  then show ?thesis using assms(1) by simp
qed

lemma heap_all_save_as:
  assumes "\<forall>sc\<in>set (heap st). P sc"
    and "\<And>sc b. P sc \<Longrightarrow> P (sc\<lparr>page_number := pn, biography := b\<rparr>)"
  shows "\<forall>sc\<in>set (heap (save_as pn st)). P sc"
proof (cases "current_scientist st")
  case None
  then show ?thesis using assms by simp
next
  case (Some r)
  have "\<forall>sc\<in>set ((heap st)[r := (heap st ! r)\<lparr>page_number := pn,
          biography := strip (sub_whitespace (strip (current_biography st)))\<rparr>]). P sc"
    using assms(1) by (rule heap_all_update) (simp add: assms)
  then show ?thesis using Some by (simp add: save_as_def Let_def)
qed

lemma heap_all_match_effect:
  assumes all: "\<forall>sc\<in>set (heap st). P sc"
    and save: "\<And>sc b. P sc \<Longrightarrow> P (sc\<lparr>page_number := pn, biography := b\<rparr>)"
    and add: "\<And>sc i. P sc \<Longrightarrow> P (connections_add i sc)"
    and new: "P (new_scientist i m)"
  shows "\<forall>sc\<in>set (heap (match_effect pn i st m)). P sc"
proof -
  let ?s = "save_as pn st"
  have s: "\<forall>sc\<in>set (heap ?s). P sc"
    using all save by (rule heap_all_save_as)
  consider (empty) "split (strip (group2 m)) = []"
    | (entry) "starts_entry m"
    | (reference) "split (strip (group2 m)) \<noteq> []" "\<not> starts_entry m"
    by blast
  then show ?thesis
  proof cases
    case empty
    show ?thesis
    proof (cases "current_scientist st")
      case None
      then show ?thesis using all by (simp add: match_effect_empty [OF empty])
    next
      case (Some r)
      have "\<forall>sc\<in>set ((heap st)[r := connections_add (i) (heap st ! r)]). P sc"
        using all by (rule heap_all_update) (simp add: add all)
      then show ?thesis using Some by (simp add: match_effect_empty [OF empty])
    qed
  next
    case entry
    show ?thesis unfolding match_effect_entry [OF entry]
      using s new by simp
  next
    case reference
    show ?thesis
    proof (cases "current_scientist st")
      case None
      then show ?thesis using all by (simp add: match_effect_reference [OF reference])
    next
      case (Some r)
      have "\<forall>sc\<in>set ((heap ?s)[r := connections_add (i) (heap ?s ! r)]). P sc"
        using s by (rule heap_all_update) (simp add: add s)
      then show ?thesis using Some
        by (simp add: match_effect_reference [OF reference] Let_def)
    qed
  qed
qed

lemma distinct_connections_add:
  "distinct (connections sc) \<Longrightarrow> distinct (connections (connections_add i sc))"
  by simp

lemma relationships_save_as [simp]: "relationships (save_as pn st) = relationships st"
  by (simp add: save_as_def Let_def split: option.splits)

lemma relationships_match_effect [simp]:
  "relationships (match_effect pn i st m) = relationships st"
  by (simp add: match_effect_def Let_def split: list.splits option.splits)

lemma relationships_parse:
  assumes "parse_scientist_entries text st = Inr p"
  shows "relationships p = relationships st"
proof -
  from parse_Inr [OF assms] obtain s1 pn where
    l: "matches_loop text (st\<lparr>current_scientist := None, current_biography := []\<rparr>)
          (finditer 0 (clean_text text)) = Inr s1"
    and p: "p = save_as pn s1" by blast
  have "relationships s1 = relationships st"
    using l by (rule matches_loop_invariant) simp_all
  then show ?thesis by (simp add: p)
qed

lemma heap_all_parse:
  assumes "parse_scientist_entries text init = Inr p"
    and save: "\<And>sc b pn. P sc \<Longrightarrow> P (sc\<lparr>page_number := pn, biography := b\<rparr>)"
    and add: "\<And>sc i. P sc \<Longrightarrow> P (connections_add i sc)"
    and new: "\<And>i m. P (new_scientist i m)"
  shows "\<forall>sc\<in>set (heap p). P sc"
proof -
  from parse_Inr [OF assms(1)] obtain s1 pn where
    l: "matches_loop text init (finditer 0 (clean_text text)) = Inr s1"
    and p: "p = save_as pn s1" unfolding init_reset by blast
  have "\<forall>sc\<in>set (heap s1). P sc"
    using l
  proof (rule matches_loop_invariant)
    show "\<forall>sc\<in>set (heap init). P sc" by (simp add: init_def)
  next
    fix s :: extractor and m :: rmatch and i pn :: int
    assume "\<forall>sc\<in>set (heap s). P sc"
    then show "\<forall>sc\<in>set (heap (match_effect pn i s m)). P sc"
      by (rule heap_all_match_effect) (rule save add new | assumption)+
  qed
  then show ?thesis unfolding p by (rule heap_all_save_as) (rule save)
qed

lemma distinct_connections_parse:
  assumes "parse_scientist_entries text init = Inr p"
  shows "\<forall>sc\<in>set (heap p). distinct (connections sc)"
  using assms by (rule heap_all_parse) (simp_all add: new_scientist_def)


subsection \<open>The resolver\<close>

lemma add_references_fields:
  "sci_id (add_references k sc) = sci_id sc"
  "name (add_references k sc) = name sc"
  "biography (add_references k sc) = biography sc"
  "page_number (add_references k sc) = page_number sc"
proof -
  define f where "f = (\<lambda>s ref. case py_int ref of
                       Inl e \<Rightarrow> s
                     | Inr ref_id \<Rightarrow>
                         if ref_id \<noteq> k then connections_add ref_id s else s)"
  have "sci_id (foldl f sc refs) = sci_id sc \<and> name (foldl f sc refs) = name sc
      \<and> biography (foldl f sc refs) = biography sc
      \<and> page_number (foldl f sc refs) = page_number sc" for refs
    by (induction refs arbitrary: sc) (auto simp: f_def split: sum.splits)
  then show "sci_id (add_references k sc) = sci_id sc"
    "name (add_references k sc) = name sc"
    "biography (add_references k sc) = biography sc"
    "page_number (add_references k sc) = page_number sc"
    unfolding add_references_def f_def by blast+
qed

lemma add_references_connections:
  "set (connections (add_references k sc))
     = set (connections sc) \<union> ({i. \<exists>ref\<in>set (findall (biography sc)). py_int ref = Inr i} - {k})"
proof -
  define f where "f = (\<lambda>s ref. case py_int ref of
                       Inl e \<Rightarrow> s
                     | Inr ref_id \<Rightarrow>
                         if ref_id \<noteq> k then connections_add ref_id s else s)"
  have "set (connections (foldl f sc refs))
      = set (connections sc) \<union> ({i. \<exists>ref\<in>set refs. py_int ref = Inr i} - {k})"
    for refs
    by (induction refs arbitrary: sc) (auto simp: f_def split: sum.splits)
  then show ?thesis unfolding add_references_def f_def by blast
qed

lemma add_references_distinct:
  "distinct (connections sc) \<Longrightarrow> distinct (connections (add_references k sc))"
proof -
  define f where "f = (\<lambda>s ref. case py_int ref of
                       Inl e \<Rightarrow> s
                     | Inr ref_id \<Rightarrow>
                         if ref_id \<noteq> k then connections_add ref_id s else s)"
  have "distinct (connections sc) \<Longrightarrow> distinct (connections (foldl f sc refs))" for refs
    by (induction refs arbitrary: sc) (auto simp: f_def split: sum.splits)
  then show "distinct (connections sc) \<Longrightarrow> distinct (connections (add_references k sc))"
    unfolding add_references_def f_def by blast
qed

lemma resolve_loop_length:
  "length (foldl (\<lambda>h (k, r). h[r := add_references k (h ! r)]) h al) = length h"
  by (induction al arbitrary: h) (auto split: prod.splits)

lemma resolve_loop_sci_id:
  "x < length h \<Longrightarrow>
   sci_id (foldl (\<lambda>h (k, r). h[r := add_references k (h ! r)]) h al ! x) = sci_id (h ! x)"
proof (induction al arbitrary: h)
  case Nil
  then show ?case by simp
next
  case (Cons a al)
  obtain k r where a: "a = (k, r)" by (cases a)
  have "sci_id (h[r := add_references k (h ! r)] ! x) = sci_id (h ! x)"
    using Cons.prems by (cases "x = r") (auto simp: add_references_fields)
  moreover have "x < length (h[r := add_references k (h ! r)])" using Cons.prems by simp
  ultimately show ?case using Cons.IH [of "h[r := add_references k (h ! r)]"] by (simp add: a)
qed

lemma resolve_loop_all:
  assumes "\<forall>sc\<in>set h. P sc" "\<And>k sc. P sc \<Longrightarrow> P (add_references k sc)"
  shows "\<forall>sc\<in>set (foldl (\<lambda>h (k, r). h[r := add_references k (h ! r)]) h al). P sc"
  using assms(1)
proof (induction al arbitrary: h)
  case Nil
  then show ?case by simp
next
  case (Cons a al)
  obtain k r where a: "a = (k, r)" by (cases a)
  have "\<forall>sc\<in>set (h[r := add_references k (h ! r)]). P sc"
    using Cons.prems by (rule heap_all_update) (simp add: assms(2) Cons.prems)
  then show ?case using Cons.IH by (simp add: a)
qed

lemma wf_extract_connections:
  assumes "wf_extractor st"
  shows "wf_extractor (extract_connections st)"
  using assms
  by (auto simp: wf_extractor_def extract_connections_def resolve_loop_length resolve_loop_sci_id)

subsection \<open>The edges\<close>

lemma set_edges:
  "set (concat (map (\<lambda>(k, r). map (\<lambda>t. (k, t)) (c r)) al))
     = {(k, t). \<exists>r. (k, r) \<in> set al \<and> t \<in> set (c r)}"
  by (induction al) auto

lemma distinct_edges:
  assumes "distinct (map fst al)" "\<forall>(k, r)\<in>set al. distinct (c r)"
  shows "distinct (concat (map (\<lambda>(k, r). map (\<lambda>t. (k, t)) (c r)) al))"
  using assms
proof (induction al)
  case Nil
  then show ?case by simp
next
  case (Cons a al)
  obtain k r where a: "a = (k, r)" by (cases a)
  have 1: "distinct (map (\<lambda>t. (k, t)) (c r))"
    using Cons.prems(2) by (simp add: a distinct_map inj_on_def)
  have 2: "distinct (concat (map (\<lambda>(k, r). map (\<lambda>t. (k, t)) (c r)) al))"
    using Cons by simp
  have 3: "set (map (\<lambda>t. (k, t)) (c r)) \<inter> set (concat (map (\<lambda>(k, r). map (\<lambda>t. (k, t)) (c r)) al)) = {}"
    using Cons.prems(1) unfolding set_edges by (auto simp: a image_iff)
  from 1 2 3 show ?case by (simp add: a)
qed


subsection \<open>The text argument only decides page numbers\<close>

text \<open>Two states that differ at most in the page numbers of their objects.\<close>

definition same_but_pages :: "extractor \<Rightarrow> extractor \<Rightarrow> bool" where
  "same_but_pages st st' \<longleftrightarrow>
     current_scientist st = current_scientist st'
   \<and> current_biography st = current_biography st'
   \<and> scientists st = scientists st'
   \<and> map (\<lambda>sc. sc\<lparr>page_number := 0\<rparr>) (heap st) = map (\<lambda>sc. sc\<lparr>page_number := 0\<rparr>) (heap st')"

lemma same_but_pages_refl: "same_but_pages st st"
  by (simp add: same_but_pages_def)

lemma same_but_pages_length: "same_but_pages st st' \<Longrightarrow> length (heap st) = length (heap st')"
  unfolding same_but_pages_def by (metis length_map)

lemma same_but_pages_nth:
  assumes "same_but_pages st st'" "x < length (heap st)"
  shows "(heap st ! x)\<lparr>page_number := 0\<rparr> = (heap st' ! x)\<lparr>page_number := 0\<rparr>"
proof -
  have l: "x < length (heap st')" using assms same_but_pages_length by simp
  have "map (\<lambda>sc. sc\<lparr>page_number := 0\<rparr>) (heap st) ! x = map (\<lambda>sc. sc\<lparr>page_number := 0\<rparr>) (heap st') ! x"
    using assms(1) by (simp add: same_but_pages_def)
  then show ?thesis using assms(2) l by simp
qed

lemma forget_page_eq_fields:
  assumes "(a::scientist)\<lparr>page_number := 0\<rparr> = b\<lparr>page_number := 0\<rparr>"
  shows "sci_id a = sci_id b" "name a = name b" "biography a = biography b"
    "connections a = connections b"
proof -
  have "sci_id (a\<lparr>page_number := 0\<rparr>) = sci_id (b\<lparr>page_number := 0\<rparr>)"
    "name (a\<lparr>page_number := 0\<rparr>) = name (b\<lparr>page_number := 0\<rparr>)"
    "biography (a\<lparr>page_number := 0\<rparr>) = biography (b\<lparr>page_number := 0\<rparr>)"
    "connections (a\<lparr>page_number := 0\<rparr>) = connections (b\<lparr>page_number := 0\<rparr>)"
    using assms by simp_all
  then show "sci_id a = sci_id b" "name a = name b" "biography a = biography b"
    "connections a = connections b" by simp_all
qed

lemma same_but_pages_update:
  assumes s: "same_but_pages st st'" and c: "current_scientist st = Some r"
    and f: "\<And>a b. a\<lparr>page_number := 0\<rparr> = b\<lparr>page_number := 0\<rparr>
              \<Longrightarrow> (f a)\<lparr>page_number := 0\<rparr> = (f' b)\<lparr>page_number := 0\<rparr>"
  shows "map (\<lambda>sc. sc\<lparr>page_number := 0\<rparr>) ((heap st)[r := f (heap st ! r)])
       = map (\<lambda>sc. sc\<lparr>page_number := 0\<rparr>) ((heap st')[r := f' (heap st' ! r)])"
proof (cases "r < length (heap st)")
  case True
  have "(f (heap st ! r))\<lparr>page_number := 0\<rparr> = (f' (heap st' ! r))\<lparr>page_number := 0\<rparr>"
    using same_but_pages_nth [OF s True] by (rule f)
  then show ?thesis using s by (simp add: map_update same_but_pages_def)
next
  case False
  then have "\<not> r < length (heap st')" using same_but_pages_length [OF s] by simp
  then show ?thesis using False s by (simp add: list_update_beyond same_but_pages_def)
qed

lemma forget_page_eq_iff:
  "(a::scientist)\<lparr>page_number := 0\<rparr> = b\<lparr>page_number := 0\<rparr> \<longleftrightarrow>
     sci_id a = sci_id b \<and> name a = name b \<and> biography a = biography b
   \<and> connections a = connections b"
  by (cases a; cases b) simp

lemma same_but_pages_save_as:
  assumes s: "same_but_pages st st'" and wf: "wf_extractor st"
  shows "same_but_pages (save_as pn st) (save_as pn' st')"
proof (cases "current_scientist st")
  case None
  then have "current_scientist st' = None" using s by (simp add: same_but_pages_def)
  then show ?thesis using None s by simp
next
  case (Some r)
  then have c': "current_scientist st' = Some r" using s by (simp add: same_but_pages_def)
  have r: "r < length (heap st)" using wf Some by (rule wf_currentD)
  have b: "current_biography st = current_biography st'" using s by (simp add: same_but_pages_def)
  have id: "sci_id (heap st ! r) = sci_id (heap st' ! r)"
    using same_but_pages_nth [OF s r] by (rule forget_page_eq_fields)
  have h: "map (\<lambda>sc. sc\<lparr>page_number := 0\<rparr>)
             ((heap st)[r := (\<lambda>sc. sc\<lparr>page_number := pn,
                  biography := strip (sub_whitespace (strip (current_biography st)))\<rparr>) (heap st ! r)])
         = map (\<lambda>sc. sc\<lparr>page_number := 0\<rparr>)
             ((heap st')[r := (\<lambda>sc. sc\<lparr>page_number := pn',
                  biography := strip (sub_whitespace (strip (current_biography st)))\<rparr>) (heap st' ! r)])"
    using s Some
  proof (rule same_but_pages_update)
    fix a b :: scientist
    assume "a\<lparr>page_number := 0\<rparr> = b\<lparr>page_number := 0\<rparr>"
    then show "(a\<lparr>page_number := pn,
                  biography := strip (sub_whitespace (strip (current_biography st)))\<rparr>)\<lparr>page_number := 0\<rparr>
        = (b\<lparr>page_number := pn',
                  biography := strip (sub_whitespace (strip (current_biography st)))\<rparr>)\<lparr>page_number := 0\<rparr>"
      by (simp add: forget_page_eq_iff)
  qed
  show ?thesis
    using s Some c' b id h
    by (simp add: same_but_pages_def save_as_def Let_def)
qed

lemma same_but_pages_add:
  assumes s: "same_but_pages st st'" and c: "current_scientist st = Some r"
  shows "same_but_pages
           (st\<lparr>heap := (heap st)[r := connections_add i (heap st ! r)], current_biography := b\<rparr>)
           (st'\<lparr>heap := (heap st')[r := connections_add i (heap st' ! r)], current_biography := b\<rparr>)"
proof -
  have "map (\<lambda>sc. sc\<lparr>page_number := 0\<rparr>) ((heap st)[r := connections_add i (heap st ! r)])
      = map (\<lambda>sc. sc\<lparr>page_number := 0\<rparr>) ((heap st')[r := connections_add i (heap st' ! r)])"
    using s c
  proof (rule same_but_pages_update)
    fix a b :: scientist
    assume "a\<lparr>page_number := 0\<rparr> = b\<lparr>page_number := 0\<rparr>"
    then show "(connections_add i a)\<lparr>page_number := 0\<rparr> = (connections_add i b)\<lparr>page_number := 0\<rparr>"
      by (simp add: forget_page_eq_iff)
  qed
  then show ?thesis using s by (simp add: same_but_pages_def)
qed

lemma same_but_pages_match_effect:
  assumes s: "same_but_pages st st'" and wf: "wf_extractor st"
  shows "same_but_pages (match_effect pn i st m) (match_effect pn' i st' m)"
proof -
  let ?s = "save_as pn st"
  let ?s' = "save_as pn' st'"
  have ss: "same_but_pages ?s ?s'" using s wf by (rule same_but_pages_save_as)
  have cur: "current_scientist st' = current_scientist st"
    and buf: "current_biography st' = current_biography st"
    using s by (simp_all add: same_but_pages_def)
  consider (empty) "split (strip (group2 m)) = []"
    | (entry) "starts_entry m"
    | (reference) "split (strip (group2 m)) \<noteq> []" "\<not> starts_entry m"
    by blast
  then show ?thesis
  proof cases
    case empty
    show ?thesis
    proof (cases "current_scientist st")
      case None
      then show ?thesis using s cur by (simp add: match_effect_empty [OF empty])
    next
      case (Some r)
      from same_but_pages_add [OF s Some] Some cur buf show ?thesis
        by (simp add: match_effect_empty [OF empty])
    qed
  next
    case entry
    have "length (heap st) = length (heap st')" using s by (rule same_but_pages_length)
    then show ?thesis
      using ss unfolding match_effect_entry [OF entry]
      by (simp add: same_but_pages_def)
  next
    case reference
    show ?thesis
    proof (cases "current_scientist st")
      case None
      then show ?thesis using s cur by (simp add: match_effect_reference [OF reference])
    next
      case (Some r)
      then have c: "current_scientist ?s = Some r" by simp
      from same_but_pages_add [OF ss c] Some cur buf show ?thesis
        by (simp add: match_effect_reference [OF reference] Let_def)
    qed
  qed
qed

lemma same_but_pages_matches_loop:
  assumes "matches_loop t st ms = Inr s" "matches_loop t' st' ms = Inr s'"
    and "same_but_pages st st'" "wf_extractor st"
  shows "same_but_pages s s'"
  using assms
proof (induction ms arbitrary: st st')
  case Nil
  then show ?case by simp
next
  case (Cons m ms)
  from Cons.prems(1) obtain u where u: "process_match t st m = Inr u"
    and rest: "matches_loop t u ms = Inr s"
    by (auto split: sum.splits)
  from Cons.prems(2) obtain u' where u': "process_match t' st' m = Inr u'"
    and rest': "matches_loop t' u' ms = Inr s'"
    by (auto split: sum.splits)
  from process_match_Inr [OF u] obtain i pn where
    i: "py_int (group1 m) = Inr i" and e: "u = match_effect pn i st m" by blast
  from process_match_Inr [OF u'] obtain i' pn' where
    i': "py_int (group1 m) = Inr i'" and e': "u' = match_effect pn' i' st' m" by blast
  have ii: "i' = i" using i i' by simp
  have "same_but_pages u u'"
    unfolding e e' ii using Cons.prems(3,4) by (rule same_but_pages_match_effect)
  moreover have "wf_extractor u" unfolding e using Cons.prems(4) by (rule wf_match_effect)
  ultimately show ?case using rest rest' by (intro Cons.IH)
qed

lemma parse_state_any_text:
  assumes "matches_loop t init ms = Inr s1" "matches_loop t' init ms = Inr s1'"
    "current_scientist s1 = Some r"
  shows "current_biography s1' = current_biography s1 \<and> current_scientist s1' = Some r
       \<and> name (heap s1' ! r) = name (heap s1 ! r) \<and> sci_id (heap s1' ! r) = sci_id (heap s1 ! r)"
proof -
  have s: "same_but_pages s1 s1'"
    using assms(1,2) same_but_pages_refl wf_init by (rule same_but_pages_matches_loop)
  have wf: "wf_extractor s1" using assms(1) wf_init by (rule wf_matches_loop)
  have r: "r < length (heap s1)" using wf assms(3) by (rule wf_currentD)
  note n = same_but_pages_nth [OF s r]
  have "name (heap s1 ! r) = name (heap s1' ! r)" "sci_id (heap s1 ! r) = sci_id (heap s1' ! r)"
    using n by (rule forget_page_eq_fields)+
  then show ?thesis using s assms(3) by (simp add: same_but_pages_def)
qed



section \<open>The parser and the resolver on concrete texts\<close>

text \<open>
  C1. The text of the specification's first example. While THALES is the current
  scientist the reference branch of the parser adds the id of the trailing \<open>[1]\<close> to his
  connections without comparing it with his own id; \<open>extract_connections\<close> only adds to
  the set. The parser returns, and his connections after the resolver are 1 and 2: the set
  contains his own id.
\<close>

theorem self_reference_kept:
  "parse_scientist_entries ''[1] THALES was a philosopher. [2] later influenced [1] again.'' init
     = Inr \<lparr>heap = [\<lparr>sci_id = 1, name = ''THALES'',
                      biography = ''was a philosopher. [2] later influenced [1] again.'',
                      page_number = 0, connections = [1, 2]\<rparr>],
             scientists = [(1, 0)], relationships = [], current_scientist = Some 0,
             current_biography = ''was a philosopher. [2] later influenced [1] again.''\<rparr>
   \<and> map_option connections
       (lookup (extract_connections
                  \<lparr>heap = [\<lparr>sci_id = 1, name = ''THALES'',
                             biography = ''was a philosopher. [2] later influenced [1] again.'',
                             page_number = 0, connections = [1, 2]\<rparr>],
                    scientists = [(1, 0)], relationships = [], current_scientist = Some 0,
                    current_biography = ''was a philosopher. [2] later influenced [1] again.''\<rparr>)
          1)
     = Some [1, 2]"
  by code_simp

text \<open>
  C2. SOLON, with the id 3, cites himself and the scientist 5. The parser returns with the
  inline connections 5 and 3. The finalized biography is
  \<open>gave laws [3] himself and [5] later\<close>; the ids of its bracket tags are 3 and 5, and
  without the own id that leaves 5 alone. After the resolver the connections are still 5
  and 3: the resolver has added to the inline set and has not replaced it, so the own id
  that the parser put there stays.
\<close>

theorem resolver_keeps_inline_set:
  "parse_scientist_entries ''[3] SOLON gave laws [3] himself and [5] later'' init
     = Inr \<lparr>heap = [\<lparr>sci_id = 3, name = ''SOLON'',
                      biography = ''gave laws [3] himself and [5] later'',
                      page_number = 0, connections = [5, 3]\<rparr>],
             scientists = [(3, 0)], relationships = [], current_scientist = Some 0,
             current_biography = ''gave laws [3] himself and [5] later''\<rparr>
   \<and> lookup (extract_connections
               \<lparr>heap = [\<lparr>sci_id = 3, name = ''SOLON'',
                          biography = ''gave laws [3] himself and [5] later'',
                          page_number = 0, connections = [5, 3]\<rparr>],
                 scientists = [(3, 0)], relationships = [], current_scientist = Some 0,
                 current_biography = ''gave laws [3] himself and [5] later''\<rparr>) 3
     = Some \<lparr>sci_id = 3, name = ''SOLON'', biography = ''gave laws [3] himself and [5] later'',
             page_number = 0, connections = [5, 3]\<rparr>
   \<and> map py_int (findall ''gave laws [3] himself and [5] later'') = [Inr 3, Inr 5]
   \<and> set [5, 3] \<noteq> set [3, 5] - {3::int}"
  by code_simp

text \<open>A document of two pages, each with a header line, an entry in the left column and
  one word in the right column.\<close>

definition two_pages :: "page list" where
  "two_pages =
     [\<lparr>extract_words = Some [\<lparr>wtext = ''LIVES'', x0 = 10, wtop = 0\<rparr>,
                             \<lparr>wtext = ''[1]'', x0 = 10, wtop = 20\<rparr>,
                             \<lparr>wtext = ''THALES'', x0 = 30, wtop = 20\<rparr>,
                             \<lparr>wtext = ''bio'', x0 = 300, wtop = 20\<rparr>], width = 600\<rparr>,
      \<lparr>extract_words = Some [\<lparr>wtext = ''LIVES'', x0 = 10, wtop = 0\<rparr>,
                             \<lparr>wtext = ''[2]'', x0 = 10, wtop = 20\<rparr>,
                             \<lparr>wtext = ''SOLON'', x0 = 30, wtop = 20\<rparr>,
                             \<lparr>wtext = ''bio'', x0 = 300, wtop = 20\<rparr>], width = 600\<rparr>]"

text \<open>
  C3. The aggregate of the two pages carries the markers of page 1 and page 2, and SOLON
  starts after the marker of page 2. \<open>re.search\<close> returns the leftmost marker of the
  prefix it is given, so SOLON is saved with page number 1. (The coordinates of the example
  are small integers, on which the floats compute without rounding.)
\<close>

theorem page_number_is_first_marker:
  "extract_text_from_pdf exact (Some two_pages) 1 2
     = [CHR 0x0A] @ ''---PAGE_1---'' @ [CHR 0x0A] @ ''[1] THALES'' @ [CHR 0x0A, CHR 0x0A] @ ''bio''
       @ [CHR 0x0A] @ ''---PAGE_2---'' @ [CHR 0x0A] @ ''[2] SOLON'' @ [CHR 0x0A, CHR 0x0A] @ ''bio''
   \<and> parse_scientist_entries (extract_text_from_pdf exact (Some two_pages) 1 2) init
     = Inr \<lparr>heap = [\<lparr>sci_id = 1, name = ''THALES'', biography = ''bio'', page_number = 1,
                      connections = []\<rparr>,
                    \<lparr>sci_id = 2, name = ''SOLON'', biography = ''bio'', page_number = 1,
                      connections = []\<rparr>],
             scientists = [(1, 0), (2, 1)], relationships = [], current_scientist = Some 1,
             current_biography = ''bio''\<rparr>
   \<and> lookup \<lparr>heap = [\<lparr>sci_id = 1, name = ''THALES'', biography = ''bio'', page_number = 1,
                       connections = []\<rparr>,
                     \<lparr>sci_id = 2, name = ''SOLON'', biography = ''bio'', page_number = 1,
                       connections = []\<rparr>],
              scientists = [(1, 0), (2, 1)], relationships = [], current_scientist = Some 1,
              current_biography = ''bio''\<rparr> 2
     = Some \<lparr>sci_id = 2, name = ''SOLON'', biography = ''bio'', page_number = 1,
             connections = []\<rparr>"
  by code_simp


subsection \<open>A tag that \<open>int\<close> refuses\<close>

lemma sub_page_lines_prefix:
  assumes "\<forall>c\<in>set pre. c \<noteq> CHR 0x0A"
  shows "sub_page_lines (pre @ s) = pre @ sub_page_lines s"
  using assms
  by (induction pre) (auto simp: sub_page_lines.simps match_page_line_def)

lemma sub_whitespace_prefix:
  assumes "\<forall>c\<in>set pre. \<not> is_space c"
  shows "sub_whitespace (pre @ s) = pre @ sub_whitespace s"
  using assms
  by (induction pre) (simp_all add: sub_whitespace.simps)

lemma is_space_not_tag_char:
  assumes "is_space c"
  shows "\<not> is_digit c" "c \<noteq> CHR ''[''" "c \<noteq> CHR '']''"
  using assms by (auto simp: is_space_def is_digit_def)

lemma match_tag_digits:
  assumes "\<forall>c\<in>set ds. is_digit c" "ds \<noteq> []"
  shows "match_tag (CHR ''['' # ds @ CHR '']'' # b) = Some (ds, b)"
proof -
  have nd: "\<not> is_digit (CHR '']'')" by (simp add: is_digit_def)
  have "takeWhile is_digit (ds @ CHR '']'' # b) = ds" "dropWhile is_digit (ds @ CHR '']'' # b) = CHR '']'' # b"
    using assms(1) nd by (simp_all add: takeWhile_append2 dropWhile_append2)
  then show ?thesis using assms(2) by (simp add: match_tag_def match_digits_def Let_def)
qed

lemma clean_text_tag:
  assumes "\<forall>c\<in>set ds. is_digit c"
  shows "clean_text (CHR ''['' # ds @ CHR '']'' # rest)
           = CHR ''['' # ds @ CHR '']'' # clean_text rest"
proof -
  have sp: "\<forall>c\<in>set (CHR ''['' # ds @ [CHR '']'']). \<not> is_space c"
    using assms is_space_not_tag_char by auto
  have "is_space (CHR 0x0A)" by (simp add: is_space_def)
  with sp have nl: "\<forall>c\<in>set (CHR ''['' # ds @ [CHR '']'']). c \<noteq> CHR 0x0A" by blast
  have "clean_text ((CHR ''['' # ds @ [CHR '']'']) @ rest)
      = (CHR ''['' # ds @ [CHR '']'']) @ clean_text rest"
    unfolding clean_text_def sub_page_lines_prefix [OF nl] sub_whitespace_prefix [OF sp] ..
  then show ?thesis by simp
qed

lemma long_tag_raises:
  assumes "\<forall>c\<in>set ds. is_digit c" "4300 < length ds"
  shows "parse_scientist_entries (CHR ''['' # ds @ CHR '']'' # rest) st = Inl ValueError"
proof -
  have ne: "ds \<noteq> []" using assms(2) by auto
  obtain ms where fi: "finditer 0 (clean_text (CHR ''['' # ds @ CHR '']'' # rest))
      = \<lparr>start = 0, group1 = ds,
         group2 = takeWhile (\<lambda>x. x \<noteq> CHR ''['') (clean_text rest)\<rparr> # ms"
    unfolding clean_text_tag [OF assms(1)]
      finditer_Some [OF match_tag_digits [OF assms(1) ne]] by blast
  have "py_int ds = Inl ValueError" using assms(2) by (simp add: py_int_def)
  then show ?thesis
    unfolding parse_scientist_entries_def Let_def fi
    by (simp add: process_match_def)
qed

lemma findall_Nil: "findall [] = []"
  by (simp add: findall.simps)

lemma findall_Some:
  assumes "match_tag (c # cs) = Some (ds, r)"
  shows "findall (c # cs) = ds # findall r"
  by (subst findall.simps) (simp only: assms option.case prod.case)

lemma long_tag_skipped:
  assumes "\<forall>c\<in>set ds. is_digit c" "4300 < length ds" "biography sc = CHR ''['' # ds @ '']''"
  shows "add_references k sc = sc"
proof -
  have ne: "ds \<noteq> []" using assms(2) by auto
  have "findall (biography sc) = [ds]"
    unfolding assms(3) findall_Some [OF match_tag_digits [OF assms(1) ne]] findall_Nil ..
  moreover have "py_int ds = Inl ValueError" using assms(2) by (simp add: py_int_def)
  ultimately show ?thesis by (simp add: add_references_def)
qed

text \<open>
  C5. A text that begins with a tag of 4301 digits. The first statement of the loop body,
  \<open>scientist_id = int(match.group(1))\<close>, raises \<open>ValueError\<close> before the match is
  classified, and the parser does not catch it. The resolver, which converts the digits of
  the same tags, catches the \<open>ValueError\<close> and skips the tag: a biography that consists
  of this tag leaves the scientist as he is.
\<close>

theorem unguarded_conversion_raises:
  "parse_scientist_entries (CHR ''['' # replicate 4301 (CHR ''1'') @ ''] THALES bio'') init
     = Inl ValueError
   \<and> add_references 1 \<lparr>sci_id = 1, name = ''THALES'',
                        biography = CHR ''['' # replicate 4301 (CHR ''1'') @ '']'',
                        page_number = 0, connections = []\<rparr>
     = \<lparr>sci_id = 1, name = ''THALES'',
        biography = CHR ''['' # replicate 4301 (CHR ''1'') @ '']'',
        page_number = 0, connections = []\<rparr>"
proof -
  have d: "\<forall>c\<in>set (replicate 4301 (CHR ''1'')). is_digit c" by (simp add: is_digit_def)
  have l: "4300 < length (replicate 4301 (CHR ''1''))" by simp
  have 1: "parse_scientist_entries (CHR ''['' # replicate 4301 (CHR ''1'') @ ''] THALES bio'') init
     = Inl ValueError"
    using long_tag_raises [OF d l, of "'' THALES bio''" init] by simp
  have 2: "add_references 1 \<lparr>sci_id = 1, name = ''THALES'',
                        biography = CHR ''['' # replicate 4301 (CHR ''1'') @ '']'',
                        page_number = 0, connections = []\<rparr>
     = \<lparr>sci_id = 1, name = ''THALES'',
        biography = CHR ''['' # replicate 4301 (CHR ''1'') @ '']'',
        page_number = 0, connections = []\<rparr>"
    by (rule long_tag_skipped [OF d l]) simp
  from 1 2 show ?thesis ..
qed



section \<open>The claims about the entries, the graph and the page numbers\<close>

subsection \<open>An entry that a later entry supersedes\<close>

lemma starts_entry_words: "starts_entry m \<Longrightarrow> split (strip (group2 m)) \<noteq> []"
  by (auto simp: starts_entry_def)

lemma superseded_entry:
  assumes fi: "finditer 0 (clean_text text) = ms1 @ m # ms2"
    and se: "starts_entry m"
    and par: "parse_scientist_entries text init = Inr p"
  shows "\<exists>s. matches_loop text init ms1 = Inr s
           \<and> (\<forall>r. current_scientist s = Some r
                   \<and> (\<forall>m'\<in>set (m # ms2). starts_entry m' \<longrightarrow>
                          py_int (group1 m') \<noteq> Inr (sci_id (heap s ! r)))
                \<longrightarrow> (\<exists>pn. page_of (take (start m) text) = Inr pn
                        \<and> lookup p (sci_id (heap s ! r))
                            = Some ((heap s ! r)\<lparr>page_number := pn,
                                 biography := strip (sub_whitespace (strip (current_biography s)))\<rparr>)))"
proof -
  from parse_Inr [OF par] obtain sf pnf where
    l: "matches_loop text init (ms1 @ m # ms2) = Inr sf" and p: "p = save_as pnf sf"
    unfolding init_reset fi by blast
  from l obtain s where ls: "matches_loop text init ms1 = Inr s"
    and l2: "matches_loop text s (m # ms2) = Inr sf"
    unfolding matches_loop_append by (auto split: sum.splits)
  from l2 obtain u where pm: "process_match text s m = Inr u"
    and l3: "matches_loop text u ms2 = Inr sf"
    by (auto split: sum.splits)
  from process_match_Inr [OF pm] obtain i pn where
    i: "py_int (group1 m) = Inr i" and u: "u = match_effect pn i s m"
    and pn: "split (strip (group2 m)) \<noteq> [] \<and> current_scientist s \<noteq> None
                \<longrightarrow> page_of (take (start m) text) = Inr pn"
    by blast
  have wf: "wf_extractor s" using ls wf_init by (rule wf_matches_loop)
  have "\<exists>pn. page_of (take (start m) text) = Inr pn
          \<and> lookup p (sci_id (heap s ! r))
              = Some ((heap s ! r)\<lparr>page_number := pn,
                   biography := strip (sub_whitespace (strip (current_biography s)))\<rparr>)"
    if cur: "current_scientist s = Some r"
      and ids: "\<forall>m'\<in>set (m # ms2). starts_entry m' \<longrightarrow>
                   py_int (group1 m') \<noteq> Inr (sci_id (heap s ! r))" for r
  proof -
    let ?obj = "(heap s ! r)\<lparr>page_number := pn,
                   biography := strip (sub_whitespace (strip (current_biography s)))\<rparr>"
    have pg: "page_of (take (start m) text) = Inr pn"
      using pn cur starts_entry_words [OF se] by simp
    have id: "i \<noteq> sci_id (heap s ! r)" using ids se i by auto
    have "kept r (sci_id (heap s ! r)) ?obj u"
      unfolding u using wf cur se id by (rule kept_after_entry)
    with l3 have "kept r (sci_id (heap s ! r)) ?obj sf"
      by (rule kept_matches_loop) (use ids in simp)
    then have "kept r (sci_id (heap s ! r)) ?obj p" unfolding p by (rule kept_save_as)
    then have "lookup p (sci_id (heap s ! r)) = Some ?obj" by (rule kept_lookup)
    with pg show ?thesis by blast
  qed
  with ls show ?thesis by blast
qed

text \<open>
  C6. Let \<open>m\<close> be a match that starts a new entry while a scientist is current, and let
  \<open>s1\<close> be the state the loop reaches on the matches of the cleaned text cut just before
  the tag of \<open>m\<close>, with any text \<open>text'\<close> for its page searches. If no later entry
  reuses the id of that scientist and the parser returns, the final dictionary holds him
  under his id with his name and with the biography that is the normalized buffer of
  \<open>s1\<close>: it is made of the text before the tag of the next entry only.
\<close>

theorem biography_ends_at_next_entry:
  assumes "finditer 0 (clean_text text) = ms1 @ m # ms2"
    and "starts_entry m"
    and "matches_loop text' init (finditer 0 (take (start m) (clean_text text))) = Inr s1"
    and "current_scientist s1 = Some r"
    and "k = sci_id (heap s1 ! r)"
    and "\<forall>m'\<in>set (m # ms2). starts_entry m' \<longrightarrow> py_int (group1 m') \<noteq> Inr k"
    and "parse_scientist_entries text init = Inr p"
  shows "\<exists>e. lookup p k = Some e
            \<and> name e = name (heap s1 ! r)
            \<and> biography e = strip (sub_whitespace (strip (current_biography s1)))"
proof -
  have pre: "finditer 0 (take (start m) (clean_text text)) = ms1"
    using finditer_prefix [OF assms(1)] by simp
  from superseded_entry [OF assms(1,2,7)] obtain s where
    ls: "matches_loop text init ms1 = Inr s"
    and sup: "\<forall>r. current_scientist s = Some r
                   \<and> (\<forall>m'\<in>set (m # ms2). starts_entry m' \<longrightarrow>
                          py_int (group1 m') \<noteq> Inr (sci_id (heap s ! r)))
                \<longrightarrow> (\<exists>pn. page_of (take (start m) text) = Inr pn
                        \<and> lookup p (sci_id (heap s ! r))
                            = Some ((heap s ! r)\<lparr>page_number := pn,
                                 biography := strip (sub_whitespace (strip (current_biography s)))\<rparr>))"
    by blast
  from parse_state_any_text [OF assms(3) [unfolded pre] ls assms(4)]
  have buf: "current_biography s = current_biography s1"
    and cur: "current_scientist s = Some r"
    and nm: "name (heap s ! r) = name (heap s1 ! r)"
    and ks: "k = sci_id (heap s ! r)"
    using assms(5) by simp_all
  from sup cur assms(6) obtain pn where
    "lookup p k = Some ((heap s ! r)\<lparr>page_number := pn,
         biography := strip (sub_whitespace (strip (current_biography s)))\<rparr>)"
    unfolding ks by blast
  then show ?thesis using buf nm by simp
qed

lemma example2_matches:
  "finditer 0 (clean_text ''[3] THALES bio text [4] SOLON bio text'')
     = [\<lparr>start = 0, group1 = ''3'', group2 = '' THALES bio text ''\<rparr>]
       @ \<lparr>start = 20, group1 = ''4'', group2 = '' SOLON bio text''\<rparr> # []"
  by code_simp

lemma example2_entry: "starts_entry \<lparr>start = 20, group1 = ''4'', group2 = '' SOLON bio text''\<rparr>"
  by code_simp

lemma example2_before:
  "matches_loop ''[3] THALES bio text [4] SOLON bio text'' init
     (finditer 0 (take (start \<lparr>start = 20, group1 = ''4'', group2 = '' SOLON bio text''\<rparr>)
                    (clean_text ''[3] THALES bio text [4] SOLON bio text'')))
     = Inr \<lparr>heap = [\<lparr>sci_id = 3, name = ''THALES'', biography = [], page_number = 0,
                      connections = []\<rparr>],
             scientists = [], relationships = [], current_scientist = Some 0,
             current_biography = ''bio text''\<rparr>"
  by code_simp

lemma example2_normalized: "strip (sub_whitespace (strip ''bio text'')) = ''bio text''"
  by code_simp

lemma example2_ids: "py_int ''4'' = Inr 4"
  by code_simp

lemma example2_parse:
  "parse_scientist_entries ''[3] THALES bio text [4] SOLON bio text'' init
     = Inr \<lparr>heap = [\<lparr>sci_id = 3, name = ''THALES'', biography = ''bio text'', page_number = 0,
                      connections = []\<rparr>,
                    \<lparr>sci_id = 4, name = ''SOLON'', biography = ''bio text'', page_number = 0,
                      connections = []\<rparr>],
             scientists = [(3, 0), (4, 1)], relationships = [], current_scientist = Some 1,
             current_biography = ''bio text''\<rparr>"
  by code_simp

text \<open>
  The second example of the specification: the entry with id 3 is THALES with the
  biography \<open>bio text\<close>, made of the text before \<open>[4]\<close>, and the entry with id 4 is SOLON.
\<close>

theorem biography_ends_at_next_entry_witness:
  "starts_entry \<lparr>start = 20, group1 = ''4'', group2 = '' SOLON bio text''\<rparr>
   \<and> parse_scientist_entries ''[3] THALES bio text [4] SOLON bio text'' init
       = Inr \<lparr>heap = [\<lparr>sci_id = 3, name = ''THALES'', biography = ''bio text'', page_number = 0,
                        connections = []\<rparr>,
                      \<lparr>sci_id = 4, name = ''SOLON'', biography = ''bio text'', page_number = 0,
                        connections = []\<rparr>],
               scientists = [(3, 0), (4, 1)], relationships = [], current_scientist = Some 1,
               current_biography = ''bio text''\<rparr>
   \<and> (\<exists>e. lookup \<lparr>heap = [\<lparr>sci_id = 3, name = ''THALES'', biography = ''bio text'',
                             page_number = 0, connections = []\<rparr>,
                           \<lparr>sci_id = 4, name = ''SOLON'', biography = ''bio text'',
                             page_number = 0, connections = []\<rparr>],
                    scientists = [(3, 0), (4, 1)], relationships = [],
                    current_scientist = Some 1, current_biography = ''bio text''\<rparr> 3 = Some e
          \<and> name e = ''THALES'' \<and> biography e = ''bio text'')
   \<and> map_option name
       (lookup \<lparr>heap = [\<lparr>sci_id = 3, name = ''THALES'', biography = ''bio text'',
                          page_number = 0, connections = []\<rparr>,
                        \<lparr>sci_id = 4, name = ''SOLON'', biography = ''bio text'',
                          page_number = 0, connections = []\<rparr>],
                 scientists = [(3, 0), (4, 1)], relationships = [],
                 current_scientist = Some 1, current_biography = ''bio text''\<rparr> 4)
       = Some ''SOLON''"
proof -
  have c: "current_scientist
      \<lparr>heap = [\<lparr>sci_id = 3, name = ''THALES'', biography = [], page_number = 0,
                 connections = []\<rparr>],
        scientists = [], relationships = [], current_scientist = Some 0,
        current_biography = ''bio text''\<rparr> = Some 0"
    by simp
  have k: "(3::int) = sci_id (heap
      \<lparr>heap = [\<lparr>sci_id = 3, name = ''THALES'', biography = [], page_number = 0,
                 connections = []\<rparr>],
        scientists = [], relationships = [], current_scientist = Some 0,
        current_biography = ''bio text''\<rparr> ! 0)"
    by simp
  have ids: "\<forall>m'\<in>set (\<lparr>start = 20, group1 = ''4'', group2 = '' SOLON bio text''\<rparr> # []).
      starts_entry m' \<longrightarrow> py_int (group1 m') \<noteq> Inr 3"
    by (simp add: example2_ids)
  from biography_ends_at_next_entry
    [OF example2_matches example2_entry example2_before c k ids example2_parse]
  have 1: "\<exists>e. lookup \<lparr>heap = [\<lparr>sci_id = 3, name = ''THALES'', biography = ''bio text'',
                             page_number = 0, connections = []\<rparr>,
                           \<lparr>sci_id = 4, name = ''SOLON'', biography = ''bio text'',
                             page_number = 0, connections = []\<rparr>],
                    scientists = [(3, 0), (4, 1)], relationships = [],
                    current_scientist = Some 1, current_biography = ''bio text''\<rparr> 3 = Some e
          \<and> name e = ''THALES'' \<and> biography e = ''bio text''"
    by (simp add: example2_normalized)
  have 2: "map_option name
       (lookup \<lparr>heap = [\<lparr>sci_id = 3, name = ''THALES'', biography = ''bio text'',
                          page_number = 0, connections = []\<rparr>,
                        \<lparr>sci_id = 4, name = ''SOLON'', biography = ''bio text'',
                          page_number = 0, connections = []\<rparr>],
                 scientists = [(3, 0), (4, 1)], relationships = [],
                 current_scientist = Some 1, current_biography = ''bio text''\<rparr> 4)
       = Some ''SOLON''"
    by (simp add: lookup_def)
  from example2_entry example2_parse 1 2 show ?thesis by (intro conjI)
qed

subsection \<open>The edges of the graph\<close>

text \<open>
  C9. When the parser has returned, after the resolver \<open>create_relationships\<close> fills the
  list of relationships with exactly one edge for every pair of a dictionary key and an id
  in the connections of the scientist stored under it. An edge is emitted whether or not
  its target is a key of the dictionary, and the dictionary and the nodes are the same after
  the call: no node is added for an unknown target.
\<close>

theorem one_edge_per_connection:
  assumes "parse_scientist_entries text init = Inr p"
    and "st = extract_connections p"
    and "g = create_relationships st"
  shows "distinct (relationships g)
       \<and> set (relationships g) = {(k, t). \<exists>e. lookup st k = Some e \<and> t \<in> set (connections e)}
       \<and> (\<forall>k e t. lookup st k = Some e \<and> t \<in> set (connections e) \<and> lookup st t = None
             \<longrightarrow> (k, t) \<in> set (relationships g) \<and> lookup g t = None)
       \<and> nodes g = nodes st"
proof -
  have wfp: "wf_extractor p" using assms(1) wf_init by (rule wf_parse)
  have wf: "wf_extractor st" unfolding assms(2) using wfp by (rule wf_extract_connections)
  have rel0: "relationships st = []"
    using relationships_parse [OF assms(1)]
    by (simp add: assms(2) extract_connections_def init_def)
  have dc: "\<forall>sc\<in>set (heap st). distinct (connections sc)"
    unfolding assms(2) extract_connections_def
    using resolve_loop_all [where P = "\<lambda>sc. distinct (connections sc)",
        OF distinct_connections_parse [OF assms(1)] add_references_distinct]
    by simp
  have rel: "relationships g
      = concat (map (\<lambda>(k, r). map (\<lambda>t. (k, t)) (connections (heap st ! r))) (scientists st))"
    by (simp add: assms(3) create_relationships_def rel0)
  have dk: "distinct (map fst (scientists st))" using wf by (simp add: wf_extractor_def)
  have dr: "\<forall>(k, r)\<in>set (scientists st). distinct (connections (heap st ! r))"
    using wf dc by (auto simp: wf_extractor_def)
  have 1: "distinct (relationships g)"
    unfolding rel using dk dr by (rule distinct_edges)
  have 2: "set (relationships g) = {(k, t). \<exists>e. lookup st k = Some e \<and> t \<in> set (connections e)}"
    unfolding rel set_edges by (auto simp: lookup_Some_iff [OF wf])
  have lk: "lookup g = lookup st"
    by (auto simp: assms(3) create_relationships_def lookup_def)
  have 3: "\<forall>k e t. lookup st k = Some e \<and> t \<in> set (connections e) \<and> lookup st t = None
             \<longrightarrow> (k, t) \<in> set (relationships g) \<and> lookup g t = None"
    unfolding 2 lk by blast
  have 4: "nodes g = nodes st" by (simp add: assms(3) create_relationships_def nodes_def)
  from 1 2 3 4 show ?thesis by (intro conjI)
qed

definition example3 :: extractor where
  "example3 = \<lparr>heap = [\<lparr>sci_id = 1, name = ''THALES'', biography = ''cites [99] here'',
                        page_number = 0, connections = [99]\<rparr>],
               scientists = [(1, 0)], relationships = [], current_scientist = Some 0,
               current_biography = ''cites [99] here''\<rparr>"

lemma example3_parse:
  "parse_scientist_entries ''[1] THALES cites [99] here'' init = Inr example3"
  by code_simp

lemma example3_thales:
  "lookup (extract_connections example3) 1
     = Some \<lparr>sci_id = 1, name = ''THALES'', biography = ''cites [99] here'', page_number = 0,
             connections = [99]\<rparr>"
  by code_simp

lemma example3_unknown: "lookup (extract_connections example3) 99 = None"
  by code_simp

lemma example3_nodes: "map sci_id (nodes (extract_connections example3)) = [1]"
  by code_simp

text \<open>
  The third example of the specification: the reference \<open>[99]\<close> gives the edge from 1 to
  99, and 99 is neither a key of the dictionary nor a node.
\<close>

theorem one_edge_per_connection_witness:
  "parse_scientist_entries ''[1] THALES cites [99] here'' init = Inr example3
   \<and> lookup (extract_connections example3) 99 = None
   \<and> (1, 99) \<in> set (relationships (create_relationships (extract_connections example3)))
   \<and> distinct (relationships (create_relationships (extract_connections example3)))
   \<and> lookup (create_relationships (extract_connections example3)) 99 = None
   \<and> map sci_id (nodes (create_relationships (extract_connections example3))) = [1]"
proof -
  note t = one_edge_per_connection [OF example3_parse refl refl]
  have "(1, 99) \<in> set (relationships (create_relationships (extract_connections example3)))
     \<and> lookup (create_relationships (extract_connections example3)) 99 = None"
    using t [THEN conjunct2, THEN conjunct2, THEN conjunct1, rule_format,
        of 1 "\<lparr>sci_id = 1, name = ''THALES'', biography = ''cites [99] here'', page_number = 0,
             connections = [99]\<rparr>" 99]
      example3_thales example3_unknown
    by simp
  moreover have "distinct (relationships (create_relationships (extract_connections example3)))"
    using t by (rule conjunct1)
  moreover have "map sci_id (nodes (create_relationships (extract_connections example3))) = [1]"
    using t [THEN conjunct2, THEN conjunct2, THEN conjunct2] example3_nodes by simp
  ultimately show ?thesis using example3_unknown example3_parse by (intro conjI) simp_all
qed


subsection \<open>Page numbers without a marker\<close>

lemma match_effect_without_save:
  assumes "split (strip (group2 m)) = [] \<or> current_scientist s = None"
  shows "match_effect pn i s m = match_effect 0 i s m"
  using assms
  by (auto simp: match_effect_def save_as_def Let_def split: list.splits)

lemma py_int_returns: "length ds \<le> 4300 \<Longrightarrow> py_int ds = Inr (digits_value ds)"
  by (simp add: py_int_def)

lemma matches_loop_returns:
  assumes "\<forall>m\<in>set ms. length (group1 m) \<le> 4300" "search_page text = None"
  shows "\<exists>s. matches_loop text st ms = Inr s"
  using assms(1)
proof (induction ms arbitrary: st)
  case Nil
  show ?case by simp
next
  case (Cons m ms)
  have "py_int (group1 m) = Inr (digits_value (group1 m))"
    using Cons.prems by (intro py_int_returns) simp
  moreover have "page_of (take (start m) text) = Inr 0"
    using assms(2) by (rule page_of_take)
  ultimately have "process_match text st m = Inr (match_effect 0 (digits_value (group1 m)) st m)"
    by (intro process_match_returns) simp_all
  moreover have "\<exists>s. matches_loop text (match_effect 0 (digits_value (group1 m)) st m) ms = Inr s"
    using Cons.prems by (intro Cons.IH) simp
  ultimately show ?case by simp
qed

lemma pages_zero_matches_loop:
  assumes "matches_loop text st ms = Inr s" and "\<forall>sc\<in>set (heap st). page_number sc = 0"
    and "search_page text = None"
  shows "\<forall>sc\<in>set (heap s). page_number sc = 0"
  using assms(1,2)
proof (rule matches_loop_invariant)
  fix u :: extractor and m :: rmatch and i pn :: int
  assume all: "\<forall>sc\<in>set (heap u). page_number sc = 0"
    and pn: "split (strip (group2 m)) \<noteq> [] \<and> current_scientist u \<noteq> None
               \<longrightarrow> page_of (take (start m) text) = Inr pn"
  have z: "\<forall>sc\<in>set (heap (match_effect 0 i u m)). page_number sc = 0"
    using all by (rule heap_all_match_effect) (simp_all add: new_scientist_def)
  show "\<forall>sc\<in>set (heap (match_effect pn i u m)). page_number sc = 0"
  proof (cases "split (strip (group2 m)) \<noteq> [] \<and> current_scientist u \<noteq> None")
    case True
    with pn have "page_of (take (start m) text) = Inr pn" by blast
    moreover have "page_of (take (start m) text) = Inr 0" using assms(3) by (rule page_of_take)
    ultimately have "pn = 0" by simp
    then show ?thesis using z by simp
  next
    case False
    then have "match_effect pn i u m = match_effect 0 i u m"
      by (intro match_effect_without_save) blast
    then show ?thesis using z by simp
  qed
qed

lemma last_entry_saved:
  assumes l: "matches_loop text init (finditer 0 (clean_text text)) = Inr s"
    and cur: "current_scientist s = Some r"
    and pg: "page_of (slice_to text (int (length text) - int (length (current_biography s))))
               = Inr pn"
  shows "parse_scientist_entries text init = Inr (save_as pn s)
       \<and> lookup (save_as pn s) (sci_id (heap s ! r))
           = Some ((heap s ! r)\<lparr>page_number := pn,
                biography := strip (sub_whitespace (strip (current_biography s)))\<rparr>)"
proof -
  have "save_current (slice_to text (int (length text) - int (length (current_biography s)))) s
      = Inr (save_as pn s)"
    by (rule save_current_returns) (simp add: pg)
  then have 1: "parse_scientist_entries text init = Inr (save_as pn s)"
    by (simp add: parse_scientist_entries_def Let_def init_reset l)
  have wf: "wf_extractor s" using l wf_init by (rule wf_matches_loop)
  have r: "r < length (heap s)" using wf cur by (rule wf_currentD)
  have 2: "lookup (save_as pn s) (sci_id (heap s ! r))
           = Some ((heap s ! r)\<lparr>page_number := pn,
                biography := strip (sub_whitespace (strip (current_biography s)))\<rparr>)"
    by (simp add: lookup_def save_as_map_of [OF cur] save_as_heap_current [OF cur r])
  from 1 2 show ?thesis ..
qed

text \<open>
  C10. A marker is what the page search of the parser recognises, and the parser searches
  the prefix of \<open>text\<close> that it cuts at the point where it saves a scientist.

  First, a scientist who is current when a match \<open>m\<close> starts the next entry is saved for
  the last time at \<open>m\<close>, with the prefix \<open>text[:m.start()]\<close>. If no marker occurs in
  \<open>text\<close> up to that point or a later one (\<open>n\<close>), his id is not reused by a later entry
  and the parser returns, the final dictionary holds him with page number 0, whatever
  markers follow.

  Second, the scientist who is current at the end of the loop is saved with the prefix
  \<open>text[:len(text) - len(current_biography)]\<close>. If no marker occurs in that prefix, the
  parser returns and the final dictionary holds him with page number 0.

  Third, for a text without any marker, whose tags have at most 4300 digits, the parser
  returns and every scientist of the final dictionary has page number 0.
\<close>

theorem no_marker_page_zero:
  "(finditer 0 (clean_text text) = ms1 @ m # ms2 \<and> starts_entry m
      \<and> matches_loop text init ms1 = Inr s1 \<and> current_scientist s1 = Some r
      \<and> k = sci_id (heap s1 ! r)
      \<and> (\<forall>m'\<in>set (m # ms2). starts_entry m' \<longrightarrow> py_int (group1 m') \<noteq> Inr k)
      \<and> parse_scientist_entries text init = Inr p
      \<and> start m \<le> n \<and> search_page (take n text) = None
      \<longrightarrow> (\<exists>e. lookup p k = Some e \<and> name e = name (heap s1 ! r) \<and> page_number e = 0))
   \<and> (matches_loop text init (finditer 0 (clean_text text)) = Inr s2
      \<and> current_scientist s2 = Some r2
      \<and> search_page (slice_to text (int (length text) - int (length (current_biography s2))))
          = None
      \<longrightarrow> (\<exists>p2 e. parse_scientist_entries text init = Inr p2
               \<and> lookup p2 (sci_id (heap s2 ! r2)) = Some e
               \<and> name e = name (heap s2 ! r2) \<and> page_number e = 0))
   \<and> (search_page text3 = None
      \<and> (\<forall>m\<in>set (finditer 0 (clean_text text3)). length (group1 m) \<le> 4300)
      \<longrightarrow> (\<exists>p3. parse_scientist_entries text3 init = Inr p3
               \<and> (\<forall>k e. lookup p3 k = Some e \<longrightarrow> page_number e = 0)))"
proof (intro conjI impI)
  assume a: "finditer 0 (clean_text text) = ms1 @ m # ms2 \<and> starts_entry m
      \<and> matches_loop text init ms1 = Inr s1 \<and> current_scientist s1 = Some r
      \<and> k = sci_id (heap s1 ! r)
      \<and> (\<forall>m'\<in>set (m # ms2). starts_entry m' \<longrightarrow> py_int (group1 m') \<noteq> Inr k)
      \<and> parse_scientist_entries text init = Inr p
      \<and> start m \<le> n \<and> search_page (take n text) = None"
  then have fi: "finditer 0 (clean_text text) = ms1 @ m # ms2" and se: "starts_entry m"
    and l1: "matches_loop text init ms1 = Inr s1" and cur: "current_scientist s1 = Some r"
    and k: "k = sci_id (heap s1 ! r)"
    and ids: "\<forall>m'\<in>set (m # ms2). starts_entry m' \<longrightarrow> py_int (group1 m') \<noteq> Inr k"
    and par: "parse_scientist_entries text init = Inr p"
    and n: "start m \<le> n" and none: "search_page (take n text) = None"
    by blast+
  from superseded_entry [OF fi se par] l1 cur ids obtain pn where
    pn: "page_of (take (start m) text) = Inr pn"
    and lk: "lookup p k = Some ((heap s1 ! r)\<lparr>page_number := pn,
                 biography := strip (sub_whitespace (strip (current_biography s1)))\<rparr>)"
    unfolding k by auto
  have "search_page (take (start m) text) = None" using none n by (rule search_page_take_le)
  then have "page_of (take (start m) text) = Inr 0" by (rule page_of_None)
  with pn have "pn = 0" by simp
  with lk show "\<exists>e. lookup p k = Some e \<and> name e = name (heap s1 ! r) \<and> page_number e = 0"
    by simp
next
  assume a: "matches_loop text init (finditer 0 (clean_text text)) = Inr s2
      \<and> current_scientist s2 = Some r2
      \<and> search_page (slice_to text (int (length text) - int (length (current_biography s2))))
          = None"
  then have l: "matches_loop text init (finditer 0 (clean_text text)) = Inr s2"
    and cur: "current_scientist s2 = Some r2"
    and none: "search_page (slice_to text (int (length text) - int (length (current_biography s2))))
          = None"
    by blast+
  from none have "page_of (slice_to text (int (length text) - int (length (current_biography s2))))
      = Inr 0"
    by (rule page_of_None)
  from last_entry_saved [OF l cur this]
  show "\<exists>p2 e. parse_scientist_entries text init = Inr p2
               \<and> lookup p2 (sci_id (heap s2 ! r2)) = Some e
               \<and> name e = name (heap s2 ! r2) \<and> page_number e = 0"
    by simp
next
  assume a: "search_page text3 = None
      \<and> (\<forall>m\<in>set (finditer 0 (clean_text text3)). length (group1 m) \<le> 4300)"
  then have none: "search_page text3 = None"
    and short: "\<forall>m\<in>set (finditer 0 (clean_text text3)). length (group1 m) \<le> 4300"
    by blast+
  from matches_loop_returns [OF short none, of init] obtain s where
    l: "matches_loop text3 init (finditer 0 (clean_text text3)) = Inr s" by blast
  have "page_of (slice_to text3 (int (length text3) - int (length (current_biography s)))) = Inr 0"
    using none by (rule page_of_slice_to)
  then have "save_current
      (slice_to text3 (int (length text3) - int (length (current_biography s)))) s
      = Inr (save_as 0 s)"
    by (intro save_current_returns) simp
  then have par: "parse_scientist_entries text3 init = Inr (save_as 0 s)"
    by (simp add: parse_scientist_entries_def Let_def init_reset l)
  have "\<forall>sc\<in>set (heap init). page_number sc = 0" by (simp add: init_def)
  with l have "\<forall>sc\<in>set (heap s). page_number sc = 0"
    using none by (rule pages_zero_matches_loop)
  then have all: "\<forall>sc\<in>set (heap (save_as 0 s)). page_number sc = 0"
    by (rule heap_all_save_as) simp
  have "page_number e = 0" if "lookup (save_as 0 s) k = Some e" for k e
  proof -
    have "wf_extractor (save_as 0 s)" using par wf_init by (rule wf_parse)
    from lookup_in_heap [OF this that] all show ?thesis by blast
  qed
  with par show "\<exists>p3. parse_scientist_entries text3 init = Inr p3
               \<and> (\<forall>k e. lookup p3 k = Some e \<longrightarrow> page_number e = 0)"
    by blast
qed

text \<open>
  The text \<open>[1] THALES bio [2] SOLON bio\n---PAGE_2---\nmore\<close>, whose only marker comes
  after both tags.
\<close>

definition late_marker :: string where
  "late_marker = ''[1] THALES bio [2] SOLON bio'' @ [CHR 0x0A] @ ''---PAGE_2---'' @ [CHR 0x0A]
                   @ ''more''"

lemma late_marker_matches:
  "finditer 0 (clean_text late_marker)
     = [\<lparr>start = 0, group1 = ''1'', group2 = '' THALES bio ''\<rparr>]
       @ \<lparr>start = 15, group1 = ''2'', group2 = '' SOLON bio more''\<rparr> # []"
  by code_simp

lemma late_marker_entry:
  "starts_entry \<lparr>start = 15, group1 = ''2'', group2 = '' SOLON bio more''\<rparr>"
  by code_simp

lemma late_marker_before:
  "matches_loop late_marker init [\<lparr>start = 0, group1 = ''1'', group2 = '' THALES bio ''\<rparr>]
     = Inr \<lparr>heap = [\<lparr>sci_id = 1, name = ''THALES'', biography = [], page_number = 0,
                      connections = []\<rparr>],
             scientists = [], relationships = [], current_scientist = Some 0,
             current_biography = ''bio''\<rparr>"
  by code_simp

lemma late_marker_loop:
  "matches_loop late_marker init (finditer 0 (clean_text late_marker))
     = Inr \<lparr>heap = [\<lparr>sci_id = 1, name = ''THALES'', biography = ''bio'', page_number = 0,
                      connections = []\<rparr>,
                    \<lparr>sci_id = 2, name = ''SOLON'', biography = [], page_number = 0,
                      connections = []\<rparr>],
             scientists = [(1, 0)], relationships = [], current_scientist = Some 1,
             current_biography = ''bio more''\<rparr>"
  by code_simp

lemma late_marker_parse:
  "parse_scientist_entries late_marker init
     = Inr \<lparr>heap = [\<lparr>sci_id = 1, name = ''THALES'', biography = ''bio'', page_number = 0,
                      connections = []\<rparr>,
                    \<lparr>sci_id = 2, name = ''SOLON'', biography = ''bio more'', page_number = 0,
                      connections = []\<rparr>],
             scientists = [(1, 0), (2, 1)], relationships = [], current_scientist = Some 1,
             current_biography = ''bio more''\<rparr>"
  by code_simp

lemma late_marker_prefix: "search_page (take 15 late_marker) = None"
  by code_simp

lemma late_marker_last_prefix:
  "search_page (slice_to late_marker (int (length late_marker) - int (length ''bio more'')))
     = None"
  by code_simp

lemma late_marker_ids: "py_int ''2'' = Inr 2"
  by code_simp

lemma example2_no_marker: "search_page ''[3] THALES bio text [4] SOLON bio text'' = None"
  by code_simp

lemma example2_short:
  "\<forall>m\<in>set (finditer 0 (clean_text ''[3] THALES bio text [4] SOLON bio text'')).
     length (group1 m) \<le> 4300"
  unfolding example2_matches by simp

text \<open>
  In that text THALES is saved at the tag \<open>[2]\<close> and SOLON at the end, both with a prefix
  that has no marker: both have page number 0 although the marker of page 2 follows. In the
  second example of the specification, which has no marker, THALES and SOLON have page
  number 0.
\<close>

theorem no_marker_page_zero_witness:
  "finditer 0 (clean_text late_marker)
     = [\<lparr>start = 0, group1 = ''1'', group2 = '' THALES bio ''\<rparr>]
       @ \<lparr>start = 15, group1 = ''2'', group2 = '' SOLON bio more''\<rparr> # []
   \<and> starts_entry \<lparr>start = 15, group1 = ''2'', group2 = '' SOLON bio more''\<rparr>
   \<and> search_page (take 15 late_marker) = None
   \<and> search_page (slice_to late_marker (int (length late_marker) - int (length ''bio more'')))
       = None
   \<and> search_page late_marker = Some ''2''
   \<and> parse_scientist_entries late_marker init
       = Inr \<lparr>heap = [\<lparr>sci_id = 1, name = ''THALES'', biography = ''bio'', page_number = 0,
                        connections = []\<rparr>,
                      \<lparr>sci_id = 2, name = ''SOLON'', biography = ''bio more'', page_number = 0,
                        connections = []\<rparr>],
               scientists = [(1, 0), (2, 1)], relationships = [], current_scientist = Some 1,
               current_biography = ''bio more''\<rparr>
   \<and> (\<exists>e. lookup \<lparr>heap = [\<lparr>sci_id = 1, name = ''THALES'', biography = ''bio'',
                             page_number = 0, connections = []\<rparr>,
                           \<lparr>sci_id = 2, name = ''SOLON'', biography = ''bio more'',
                             page_number = 0, connections = []\<rparr>],
                    scientists = [(1, 0), (2, 1)], relationships = [],
                    current_scientist = Some 1, current_biography = ''bio more''\<rparr> 1 = Some e
          \<and> name e = ''THALES'' \<and> page_number e = 0)
   \<and> (\<exists>p2 e. parse_scientist_entries late_marker init = Inr p2 \<and> lookup p2 2 = Some e
          \<and> name e = ''SOLON'' \<and> page_number e = 0)
   \<and> search_page ''[3] THALES bio text [4] SOLON bio text'' = None
   \<and> (\<exists>p3. parse_scientist_entries ''[3] THALES bio text [4] SOLON bio text'' init = Inr p3
          \<and> (\<forall>k e. lookup p3 k = Some e \<longrightarrow> page_number e = 0))"
proof -
  note t = no_marker_page_zero
    [of late_marker "[\<lparr>start = 0, group1 = ''1'', group2 = '' THALES bio ''\<rparr>]"
        "\<lparr>start = 15, group1 = ''2'', group2 = '' SOLON bio more''\<rparr>" "[]"
        "\<lparr>heap = [\<lparr>sci_id = 1, name = ''THALES'', biography = [], page_number = 0,
                   connections = []\<rparr>],
          scientists = [], relationships = [], current_scientist = Some 0,
          current_biography = ''bio''\<rparr>"
        0 1
        "\<lparr>heap = [\<lparr>sci_id = 1, name = ''THALES'', biography = ''bio'', page_number = 0,
                   connections = []\<rparr>,
                 \<lparr>sci_id = 2, name = ''SOLON'', biography = ''bio more'', page_number = 0,
                   connections = []\<rparr>],
          scientists = [(1, 0), (2, 1)], relationships = [], current_scientist = Some 1,
          current_biography = ''bio more''\<rparr>"
        15
        "\<lparr>heap = [\<lparr>sci_id = 1, name = ''THALES'', biography = ''bio'', page_number = 0,
                   connections = []\<rparr>,
                 \<lparr>sci_id = 2, name = ''SOLON'', biography = [], page_number = 0,
                   connections = []\<rparr>],
          scientists = [(1, 0)], relationships = [], current_scientist = Some 1,
          current_biography = ''bio more''\<rparr>"
        1
        "''[3] THALES bio text [4] SOLON bio text''"]
  have whole: "search_page late_marker = Some ''2''" by code_simp
  have a: "\<exists>e. lookup \<lparr>heap = [\<lparr>sci_id = 1, name = ''THALES'', biography = ''bio'',
                             page_number = 0, connections = []\<rparr>,
                           \<lparr>sci_id = 2, name = ''SOLON'', biography = ''bio more'',
                             page_number = 0, connections = []\<rparr>],
                    scientists = [(1, 0), (2, 1)], relationships = [],
                    current_scientist = Some 1, current_biography = ''bio more''\<rparr> 1 = Some e
          \<and> name e = ''THALES'' \<and> page_number e = 0"
    using t [THEN conjunct1] late_marker_matches late_marker_entry late_marker_before
      late_marker_parse late_marker_prefix
    by (simp add: late_marker_ids)
  have b: "\<exists>p2 e. parse_scientist_entries late_marker init = Inr p2 \<and> lookup p2 2 = Some e
          \<and> name e = ''SOLON'' \<and> page_number e = 0"
    using t [THEN conjunct2, THEN conjunct1] late_marker_loop late_marker_last_prefix
    by simp
  have c: "\<exists>p3. parse_scientist_entries ''[3] THALES bio text [4] SOLON bio text'' init = Inr p3
          \<and> (\<forall>k e. lookup p3 k = Some e \<longrightarrow> page_number e = 0)"
    using t [THEN conjunct2, THEN conjunct2] example2_no_marker example2_short
    by blast
  from late_marker_matches late_marker_entry late_marker_prefix late_marker_last_prefix whole
    late_marker_parse a b example2_no_marker c
  show ?thesis by (intro conjI)
qed

end
